theory Spec2Isabelle
  imports Main "HOL-Library.Word" "HOL-Library.Signed_Division"
begin

unbundle bit_operations_syntax

section \<open>Grids, slots and positions\<close>

text \<open>
  A grid is the C type \<open>u64\<close>: one bit per cell of the 8x8 board, the cell with slot
  \<open>i\<close> at bit \<open>63 - i\<close>. The C type \<open>i32\<close> is modelled by \<open>int\<close>: every
  \<open>i32\<close> computation of the program (\<open>slot / 8\<close>, \<open>slot % 8\<close>,
  \<open>row * 8 + col\<close> behind its range guard, offsets of at most 2, counters of at most
  64) stays far inside the 32-bit range, so no wrap-around is reachable. Division and
  remainder are the truncating ones of C (\<open>sdiv\<close>, \<open>smod\<close>).
\<close>

type_synonym u8 = "8 word"
type_synonym u64 = "64 word"

record Pos =
  row :: int
  col :: int

definition pos_from_slot :: "int \<Rightarrow> Pos" where
  "pos_from_slot slot = \<lparr>row = slot sdiv 8, col = slot smod 8\<rparr>"

definition slot_set :: "u64 \<Rightarrow> int \<Rightarrow> u64" where
  "slot_set m slot =
     (if slot < 0 \<or> slot \<ge> 64 then m
      else m OR push_bit (nat (63 - slot)) 1)"

definition slot_unset :: "u64 \<Rightarrow> int \<Rightarrow> u64" where
  "slot_unset m slot =
     (if slot < 0 \<or> slot \<ge> 64 then m
      else m AND NOT (push_bit (nat (63 - slot)) 1))"

definition slot_is_set :: "u64 \<Rightarrow> int \<Rightarrow> u64" where
  "slot_is_set m slot =
     (if slot < 0 \<or> slot \<ge> 64 then 0
      else m AND push_bit (nat (63 - slot)) 1)"

definition pos_set :: "u64 \<Rightarrow> Pos \<Rightarrow> u64" where
  "pos_set m pos =
     (if row pos < 0 \<or> row pos \<ge> 8 \<or> col pos < 0 \<or> col pos \<ge> 8 then m
      else m OR push_bit (nat (63 - (row pos * 8 + col pos))) 1)"

definition pos_unset :: "u64 \<Rightarrow> Pos \<Rightarrow> u64" where
  "pos_unset m pos =
     (if row pos < 0 \<or> row pos \<ge> 8 \<or> col pos < 0 \<or> col pos \<ge> 8 then m
      else m AND NOT (push_bit (nat (63 - (row pos * 8 + col pos))) 1))"

definition pos_is_set :: "u64 \<Rightarrow> Pos \<Rightarrow> u64" where
  "pos_is_set m pos =
     (if row pos < 0 \<or> row pos \<ge> 8 \<or> col pos < 0 \<or> col pos \<ge> 8 then 0
      else m AND push_bit (nat (63 - (row pos * 8 + col pos))) 1)"

text \<open>
  \<open>count_set_bits\<close> clears the lowest set bit until the word is zero. The loop is not
  structural; it terminates because \<open>n AND (n - 1)\<close> is below \<open>n\<close> for nonzero \<open>n\<close>.
\<close>

function count_set_bits_loop :: "u64 \<Rightarrow> int \<Rightarrow> int" where
  "count_set_bits_loop n count =
     (if n \<noteq> 0 then count_set_bits_loop (n AND (n - 1)) (count + 1) else count)"
  by pat_completeness auto

lemma and_pred_less: "n \<noteq> 0 \<Longrightarrow> unat (n AND (n - 1)) < unat (n :: u64)"
proof -
  assume nz: "n \<noteq> 0"
  have "n AND (n - 1) \<le> n - 1" by (rule word_and_le1)
  then have "unat (n AND (n - 1)) \<le> unat (n - 1)" by (simp add: word_le_nat_alt)
  moreover have "unat (n - 1) < unat n" using nz by (simp add: unat_minus_one unat_gt_0)
  ultimately show ?thesis by linarith
qed

termination count_set_bits_loop
  by (relation "measure (\<lambda>(n, count). unat n)") (auto simp: and_pred_less)

declare count_set_bits_loop.simps [simp del]

definition count_set_bits :: "u64 \<Rightarrow> int" where
  "count_set_bits n = count_set_bits_loop n 0"

section \<open>Puzzle records\<close>

text \<open>
  \<open>PuzzleArgs\<close> holds fixed arrays and the number of their entries in use; its fields
  carry the prefix \<open>arg_\<close> to keep them apart from those of \<open>Puzzle\<close>. The two
  \<open>assert\<close>s of \<open>puzzle\<close> abort the program, which is the result \<open>None\<close>.
\<close>

record PuzzleArgs =
  arg_row_wall_counts :: "u8 list"
  arg_col_wall_counts :: "u8 list"
  arg_monsters :: "Pos list"
  arg_monsters_count :: u8
  arg_treasures :: "Pos list"
  arg_treasures_count :: u8

record Puzzle =
  row_wall_counts :: "u8 list"
  col_wall_counts :: "u8 list"
  monsters :: u64
  treasures :: u64

definition set_positions :: "Pos list \<Rightarrow> u8 \<Rightarrow> u64" where
  "set_positions ps n = fold (\<lambda>p m. pos_set m p) (take (unat n) ps) 0"

definition puzzle :: "PuzzleArgs \<Rightarrow> Puzzle option" where
  "puzzle args =
     (if \<not> arg_monsters_count args \<le> 64 then None
      else if \<not> arg_treasures_count args \<le> 64 then None
      else Some \<lparr>row_wall_counts = map (\<lambda>i. arg_row_wall_counts args ! i) [0..<8],
                 col_wall_counts = map (\<lambda>i. arg_col_wall_counts args ! i) [0..<8],
                 monsters = set_positions (arg_monsters args) (arg_monsters_count args),
                 treasures = set_positions (arg_treasures args) (arg_treasures_count args)\<rparr>)"

section \<open>Constraints\<close>

text \<open>
  Each constraint reads the puzzle, the grid built so far and the slot toggled last.
  The parameter the source calls \<open>puzzle\<close> is written \<open>pz\<close>, since \<open>puzzle\<close> is
  the constructor function above, and the row and column parameters of the two wall
  counters are \<open>r\<close> and \<open>c\<close>, since \<open>row\<close> and \<open>col\<close> are the fields of \<open>Pos\<close>. A C condition on a \<open>u64\<close> is the test \<open>\<noteq> 0\<close>.
\<close>

definition check_doesnt_overlap :: "Puzzle \<Rightarrow> u64 \<Rightarrow> bool" where
  "check_doesnt_overlap pz solution =
     (\<not> (solution AND treasures pz \<noteq> 0 \<or> solution AND monsters pz \<noteq> 0))"

definition count_walls_in_row :: "u64 \<Rightarrow> int \<Rightarrow> int" where
  "count_walls_in_row solution r =
     (let row_mask = drop_bit (nat (r * 8)) (0xFF00000000000000 :: u64);
          row_walls = row_mask AND solution
      in count_set_bits row_walls)"

definition count_walls_in_col :: "u64 \<Rightarrow> int \<Rightarrow> int" where
  "count_walls_in_col solution c =
     (let col_mask = drop_bit (nat c) (0x8080808080808080 :: u64);
          col_walls = col_mask AND solution
      in count_set_bits col_walls)"

text \<open>
  \<open>check_row_count\<close> and \<open>check_col_count\<close> start with the assertions
  \<open>0 <= slot\<close> and \<open>slot < 64\<close>. Their only caller is the loop of \<open>solve\<close>, whose
  condition is exactly that, so the assertions never fail and are not a branch here.
\<close>

definition check_row_count :: "Puzzle \<Rightarrow> u64 \<Rightarrow> int \<Rightarrow> bool" where
  "check_row_count pz solution slot =
     (let pos = pos_from_slot slot;
          walls_in_row = count_walls_in_row solution (row pos)
      in if walls_in_row > uint (row_wall_counts pz ! nat (row pos)) then False
         else if col pos = 7 \<and> walls_in_row \<noteq> uint (row_wall_counts pz ! nat (row pos))
         then False
         else True)"

definition check_col_count :: "Puzzle \<Rightarrow> u64 \<Rightarrow> int \<Rightarrow> bool" where
  "check_col_count pz solution slot =
     (let pos = pos_from_slot slot;
          walls_in_col = count_walls_in_col solution (col pos)
      in if walls_in_col > uint (col_wall_counts pz ! nat (col pos)) then False
         else if row pos = 7 \<and> walls_in_col \<noteq> uint (col_wall_counts pz ! nat (col pos))
         then False
         else True)"

definition border_of :: "Pos \<Rightarrow> u64" where
  "border_of p =
     pos_set (pos_set (pos_set (pos_set 0
       \<lparr>row = row p - 1, col = col p\<rparr>)
       \<lparr>row = row p + 1, col = col p\<rparr>)
       \<lparr>row = row p, col = col p - 1\<rparr>)
       \<lparr>row = row p, col = col p + 1\<rparr>"

definition is_dead_end :: "Puzzle \<Rightarrow> u64 \<Rightarrow> Pos \<Rightarrow> bool" where
  "is_dead_end pz solution p =
     (if row p < 0 \<or> row p \<ge> 8 \<or> col p < 0 \<or> col p \<ge> 8 then False
      else let slot_mask = pos_set 0 p in
        if slot_mask AND solution \<noteq> 0 then False
        else if slot_mask AND treasures pz \<noteq> 0 \<or> slot_mask AND monsters pz \<noteq> 0 then False
        else let border_mask = border_of p;
                 border_walls = border_mask AND solution
             in count_set_bits border_walls \<ge> count_set_bits border_mask - 1)"

definition check_dead_ends :: "Puzzle \<Rightarrow> u64 \<Rightarrow> int \<Rightarrow> bool" where
  "check_dead_ends pz solution slot =
     (let p = pos_from_slot slot;
          above = \<lparr>row = row p - 1, col = col p\<rparr>;
          left = \<lparr>row = row p, col = col p - 1\<rparr>
      in if is_dead_end pz solution above \<or> is_dead_end pz solution left \<or>
            is_dead_end pz solution p
         then False else True)"

definition is_invalid_monster :: "Puzzle \<Rightarrow> u64 \<Rightarrow> Pos \<Rightarrow> bool" where
  "is_invalid_monster pz solution p =
     (if row p < 0 \<or> row p \<ge> 8 \<or> col p < 0 \<or> col p \<ge> 8 then False
      else let slot_mask = pos_set 0 p in
        if \<not> (slot_mask AND monsters pz \<noteq> 0) then False
        else let border_mask = border_of p;
                 border_walls = border_mask AND solution
             in if border_mask AND monsters pz \<noteq> 0 \<or> border_mask AND treasures pz \<noteq> 0
                then True
                else count_set_bits border_walls \<noteq> count_set_bits border_mask - 1)"

definition check_monsters :: "Puzzle \<Rightarrow> u64 \<Rightarrow> int \<Rightarrow> bool" where
  "check_monsters pz solution slot =
     (let p = pos_from_slot slot;
          above = \<lparr>row = row p - 1, col = col p\<rparr>
      in if is_invalid_monster pz solution above then False
         else if row p = 7 then
           (let left = \<lparr>row = row p, col = col p - 1\<rparr>
            in if is_invalid_monster pz solution left then False
               else if col p = 7 then
                 (if is_invalid_monster pz solution p then False else True)
               else True)
         else True)"

definition wide_space_mask :: "Pos \<Rightarrow> u64" where
  "wide_space_mask p =
     pos_set (pos_set (pos_set (pos_set 0 p)
       \<lparr>row = row p, col = col p - 1\<rparr>)
       \<lparr>row = row p - 1, col = col p\<rparr>)
       \<lparr>row = row p - 1, col = col p - 1\<rparr>"

definition wide_space_neighbors :: "Pos \<Rightarrow> u64" where
  "wide_space_neighbors p =
     pos_set (pos_set (pos_set (pos_set (pos_set (pos_set
     (pos_set (pos_set (pos_set (pos_set (pos_set (pos_set 0
       \<lparr>row = row p - 2, col = col p - 2\<rparr>)
       \<lparr>row = row p - 2, col = col p - 1\<rparr>)
       \<lparr>row = row p - 2, col = col p\<rparr>)
       \<lparr>row = row p - 2, col = col p + 1\<rparr>)
       \<lparr>row = row p - 1, col = col p - 2\<rparr>)
       \<lparr>row = row p - 1, col = col p + 1\<rparr>)
       \<lparr>row = row p, col = col p - 2\<rparr>)
       \<lparr>row = row p, col = col p + 1\<rparr>)
       \<lparr>row = row p + 1, col = col p - 2\<rparr>)
       \<lparr>row = row p + 1, col = col p - 1\<rparr>)
       \<lparr>row = row p + 1, col = col p\<rparr>)
       \<lparr>row = row p + 1, col = col p + 1\<rparr>"

definition check_wide_space :: "Puzzle \<Rightarrow> u64 \<Rightarrow> int \<Rightarrow> bool" where
  "check_wide_space pz solution slot =
     (let p = pos_from_slot slot;
          space_mask = wide_space_mask p
      in if count_set_bits space_mask = 4 \<and> \<not> (space_mask AND solution \<noteq> 0) \<and>
            \<not> (space_mask AND monsters pz \<noteq> 0) \<and> \<not> (space_mask AND treasures pz \<noteq> 0)
         then (let neighbors = wide_space_neighbors p
               in if neighbors AND treasures pz \<noteq> 0 then True else False)
         else True)"

definition room_mask_of :: "Pos \<Rightarrow> u64" where
  "room_mask_of center =
     pos_set (pos_set (pos_set (pos_set (pos_set (pos_set (pos_set (pos_set (pos_set 0
       \<lparr>row = row center - 1, col = col center - 1\<rparr>)
       \<lparr>row = row center - 1, col = col center\<rparr>)
       \<lparr>row = row center - 1, col = col center + 1\<rparr>)
       \<lparr>row = row center, col = col center - 1\<rparr>)
       \<lparr>row = row center, col = col center\<rparr>)
       \<lparr>row = row center, col = col center + 1\<rparr>)
       \<lparr>row = row center + 1, col = col center - 1\<rparr>)
       \<lparr>row = row center + 1, col = col center\<rparr>)
       \<lparr>row = row center + 1, col = col center + 1\<rparr>"

definition walls_mask_of :: "Pos \<Rightarrow> u64" where
  "walls_mask_of center =
     pos_set (pos_set (pos_set (pos_set (pos_set (pos_set
     (pos_set (pos_set (pos_set (pos_set (pos_set (pos_set 0
       \<lparr>row = row center - 2, col = col center - 1\<rparr>)
       \<lparr>row = row center - 2, col = col center\<rparr>)
       \<lparr>row = row center - 2, col = col center + 1\<rparr>)
       \<lparr>row = row center + 2, col = col center - 1\<rparr>)
       \<lparr>row = row center + 2, col = col center\<rparr>)
       \<lparr>row = row center + 2, col = col center + 1\<rparr>)
       \<lparr>row = row center - 1, col = col center - 2\<rparr>)
       \<lparr>row = row center, col = col center - 2\<rparr>)
       \<lparr>row = row center + 1, col = col center - 2\<rparr>)
       \<lparr>row = row center - 1, col = col center + 2\<rparr>)
       \<lparr>row = row center, col = col center + 2\<rparr>)
       \<lparr>row = row center + 1, col = col center + 2\<rparr>"

definition is_invalid_treasure_room :: "Puzzle \<Rightarrow> u64 \<Rightarrow> Pos \<Rightarrow> Pos \<Rightarrow> int \<Rightarrow> bool" where
  "is_invalid_treasure_room pz solution treasure center slot =
     (let room_mask = room_mask_of center in
      if count_set_bits room_mask \<noteq> 9 then True
      else let other_treasures = pos_unset (treasures pz) treasure in
        if room_mask AND monsters pz \<noteq> 0 \<or> room_mask AND other_treasures \<noteq> 0 then True
        else if room_mask AND solution \<noteq> 0 then True
        else let walls_mask = walls_mask_of center in
          if walls_mask AND monsters pz \<noteq> 0 \<or> walls_mask AND treasures pz \<noteq> 0 then True
          else let checked_pos = pos_from_slot slot in
            if (row checked_pos \<ge> row center + 2 \<and> col checked_pos \<ge> col center + 2) \<or>
               (row checked_pos = 7 \<and> col checked_pos = 7)
            then (if count_set_bits (walls_mask AND solution) \<noteq> count_set_bits walls_mask - 1
                  then True else False)
            else (if count_set_bits (walls_mask AND solution) = count_set_bits walls_mask
                  then True else False))"

text \<open>
  The two nested \<open>for\<close> loops of \<open>is_invalid_treasure\<close> run over the nine candidate
  centers, rows outermost, and conjoin the results into \<open>result\<close>.
\<close>

definition is_invalid_treasure :: "Puzzle \<Rightarrow> u64 \<Rightarrow> Pos \<Rightarrow> int \<Rightarrow> bool" where
  "is_invalid_treasure pz solution treasure slot =
     fold (\<lambda>r result.
       fold (\<lambda>c result.
           result \<and> is_invalid_treasure_room pz solution treasure \<lparr>row = r, col = c\<rparr> slot)
         [col treasure - 1, col treasure, col treasure + 1] result)
       [row treasure - 1, row treasure, row treasure + 1] True"

text \<open>
  \<open>check_treasure_rooms\<close> returns false at the first invalid treasure of its row-major
  scan, and true when the scan finds none.
\<close>

definition board_range :: "int list" where
  "board_range = [0, 1, 2, 3, 4, 5, 6, 7]"

definition check_treasure_rooms :: "Puzzle \<Rightarrow> u64 \<Rightarrow> int \<Rightarrow> bool" where
  "check_treasure_rooms pz solution slot =
     (if treasures pz = 0 then True
      else list_all (\<lambda>r. list_all (\<lambda>c.
             let treasure_pos = \<lparr>row = r, col = c\<rparr> in
             if pos_is_set (treasures pz) treasure_pos \<noteq> 0
             then (if is_invalid_treasure pz solution treasure_pos slot then False else True)
             else True)
             board_range) board_range)"

definition constraints_hold :: "Puzzle \<Rightarrow> u64 \<Rightarrow> int \<Rightarrow> bool" where
  "constraints_hold pz solution slot =
     (check_doesnt_overlap pz solution \<and> check_row_count pz solution slot \<and>
      check_col_count pz solution slot \<and> check_dead_ends pz solution slot \<and>
      check_monsters pz solution slot \<and> check_wide_space pz solution slot \<and>
      check_treasure_rooms pz solution slot)"

section \<open>The solver\<close>

text \<open>
  The inner loop of \<open>solve\<close> walks back to the last slot that holds a wall.
\<close>

function backtrack :: "u64 \<Rightarrow> int \<Rightarrow> int" where
  "backtrack solution slot =
     (if slot \<ge> 0 \<and> \<not> (slot_is_set solution slot \<noteq> 0)
      then backtrack solution (slot - 1) else slot)"
  by pat_completeness auto
termination
  by (relation "measure (\<lambda>(solution, slot). nat (slot + 1))") auto

declare backtrack.simps [simp del]

text \<open>
  The state of the outer loop: the grid, the slot, the number of solutions found and the
  caller's buffer. The buffer is a list as long as \<open>max_solutions\<close>; it is written at
  index \<open>solution_i\<close> only while \<open>solution_i < max_solutions\<close>. The message printed when
  the buffer is full is not part of the state.
\<close>

record solve_state =
  solution :: u64
  slot :: int
  solution_i :: u64
  solutions :: "u64 list"

definition solve_body :: "Puzzle \<Rightarrow> u64 \<Rightarrow> solve_state \<Rightarrow> solve_state" where
  "solve_body pz max_solutions st =
     (let sol = (if \<not> (slot_is_set (solution st) (slot st) \<noteq> 0)
                 then slot_set (solution st) (slot st)
                 else slot_unset (solution st) (slot st));
          ok = constraints_hold pz sol (slot st)
      in if ok \<and> slot st < 63 then st\<lparr>solution := sol, slot := slot st + 1\<rparr>
         else
           (let st1 = (if ok
                  then st\<lparr>solution := sol,
                         solution_i := solution_i st + 1,
                         solutions := (if solution_i st \<ge> max_solutions then solutions st
                                       else (solutions st)[unat (solution_i st) := sol])\<rparr>
                  else st\<lparr>solution := sol\<rparr>)
            in st1\<lparr>slot := backtrack sol (slot st)\<rparr>))"

section \<open>Bit-level facts about the grid operations\<close>

definition in_grid :: "Pos \<Rightarrow> bool" where
  "in_grid p = (0 \<le> row p \<and> row p < 8 \<and> 0 \<le> col p \<and> col p < 8)"

definition pos_bit :: "Pos \<Rightarrow> nat" where
  "pos_bit p = nat (63 - (row p * 8 + col p))"

lemma word_nonzero_bit: "(w \<noteq> 0) = (\<exists>n. bit (w :: u64) n)"
proof
  assume "w \<noteq> 0"
  then show "\<exists>n. bit w n" by (metis bit_eqI bit_0_eq bot_apply bot_bool_def)
next
  assume "\<exists>n. bit w n"
  then show "w \<noteq> 0" by auto
qed

lemma bit_slot_set:
  "bit (slot_set m s) n = (bit m n \<or> (0 \<le> s \<and> s < 64 \<and> n = nat (63 - s)))"
  by (auto simp: slot_set_def bit_simps)

lemma bit_slot_unset:
  "bit (slot_unset m s) n = (bit m n \<and> \<not> (0 \<le> s \<and> s < 64 \<and> n = nat (63 - s)))"
  by (auto simp: slot_unset_def bit_simps dest: bit_imp_le_length)

lemma bit_slot_is_set:
  "bit (slot_is_set m s) n = (bit m n \<and> 0 \<le> s \<and> s < 64 \<and> n = nat (63 - s))"
  by (auto simp: slot_is_set_def bit_simps)

lemma slot_is_set_iff:
  "(slot_is_set m s \<noteq> 0) = (0 \<le> s \<and> s < 64 \<and> bit m (nat (63 - s)))"
proof -
  have "(slot_is_set m s \<noteq> 0) = (\<exists>n. bit (slot_is_set m s) n)"
    by (rule word_nonzero_bit)
  then show ?thesis by (auto simp: bit_slot_is_set)
qed

lemma bit_pos_set:
  "bit (pos_set m p) n = (bit m n \<or> (in_grid p \<and> n = pos_bit p))"
  by (auto simp: pos_set_def in_grid_def pos_bit_def bit_simps)

lemma bit_pos_unset:
  "bit (pos_unset m p) n = (bit m n \<and> \<not> (in_grid p \<and> n = pos_bit p))"
  by (auto simp: pos_unset_def in_grid_def pos_bit_def bit_simps dest: bit_imp_le_length)

lemma bit_pos_is_set:
  "bit (pos_is_set m p) n = (bit m n \<and> in_grid p \<and> n = pos_bit p)"
  by (auto simp: pos_is_set_def in_grid_def pos_bit_def bit_simps)

lemma pos_is_set_iff:
  "(pos_is_set m p \<noteq> 0) = (in_grid p \<and> bit m (pos_bit p))"
proof -
  have "(pos_is_set m p \<noteq> 0) = (\<exists>n. bit (pos_is_set m p) n)"
    by (rule word_nonzero_bit)
  then show ?thesis by (auto simp: bit_pos_is_set)
qed

lemma pos_bit_inj:
  assumes "in_grid a" "in_grid b" "pos_bit a = pos_bit b"
  shows "row a = row b \<and> col a = col b"
proof -
  have "63 - (row a * 8 + col a) = 63 - (row b * 8 + col b)"
    using assms unfolding in_grid_def pos_bit_def by linarith
  then show ?thesis using assms(1,2) unfolding in_grid_def by presburger
qed

lemma bit_fold_pos_set:
  "bit (fold (\<lambda>p m. pos_set m p) ps m0) k =
     (bit m0 k \<or> (\<exists>p \<in> set ps. in_grid p \<and> k = pos_bit p))"
  by (induction ps arbitrary: m0) (auto simp: bit_pos_set)

lemma bit_set_positions:
  "bit (set_positions ps n) k = (\<exists>p \<in> set (take (unat n) ps). in_grid p \<and> k = pos_bit p)"
  by (simp add: set_positions_def bit_fold_pos_set)

section \<open>Claims about the grid operations and the puzzle record\<close>

text \<open>
  C9. Setting and clearing by slot or by position return the grid unchanged when the
  slot is outside 0-63 or the position is outside the board, and testing is then false
  (the value 0); inside the range each operation sets, clears or tests exactly the bit
  \<open>63 - (row * 8 + col)\<close>, which for a slot is the bit \<open>63 - slot\<close>.
\<close>

theorem grid_ops_one_bit:
  "slot_set m s = (if 0 \<le> s \<and> s < 64 then set_bit (nat (63 - s)) m else m) \<and>
   slot_unset m s = (if 0 \<le> s \<and> s < 64 then unset_bit (nat (63 - s)) m else m) \<and>
   (slot_is_set m s \<noteq> 0) = (0 \<le> s \<and> s < 64 \<and> bit m (nat (63 - s))) \<and>
   pos_set m p = (if in_grid p then set_bit (nat (63 - (row p * 8 + col p))) m else m) \<and>
   pos_unset m p = (if in_grid p then unset_bit (nat (63 - (row p * 8 + col p))) m else m) \<and>
   (pos_is_set m p \<noteq> 0) = (in_grid p \<and> bit m (nat (63 - (row p * 8 + col p))))"
proof -
  have a: "slot_set m s = (if 0 \<le> s \<and> s < 64 then set_bit (nat (63 - s)) m else m)"
    by (rule bit_eqI) (auto simp: bit_slot_set bit_simps)
  have b: "slot_unset m s = (if 0 \<le> s \<and> s < 64 then unset_bit (nat (63 - s)) m else m)"
    by (rule bit_eqI) (auto simp: bit_slot_unset bit_simps)
  have c: "pos_set m p = (if in_grid p then set_bit (nat (63 - (row p * 8 + col p))) m else m)"
    by (rule bit_eqI) (auto simp: bit_pos_set pos_bit_def bit_simps)
  have d: "pos_unset m p = (if in_grid p then unset_bit (nat (63 - (row p * 8 + col p))) m else m)"
    by (rule bit_eqI) (auto simp: bit_pos_unset pos_bit_def bit_simps)
  have e: "(pos_is_set m p \<noteq> 0) = (in_grid p \<and> bit m (nat (63 - (row p * 8 + col p))))"
    by (simp add: pos_is_set_iff pos_bit_def)
  show ?thesis using a b c d e slot_is_set_iff [of m s] by blast
qed

text \<open>
  C6, as the code has it. \<open>puzzle\<close> accumulates the monster grid and the treasure grid
  independently and compares nothing: a position listed both as a monster and as a
  treasure is set in both grids.
\<close>

definition overlap_args :: PuzzleArgs where
  "overlap_args =
     \<lparr>arg_row_wall_counts = replicate 8 0, arg_col_wall_counts = replicate 8 0,
      arg_monsters = replicate 64 \<lparr>row = 0, col = 0\<rparr>, arg_monsters_count = 1,
      arg_treasures = replicate 64 \<lparr>row = 0, col = 0\<rparr>, arg_treasures_count = 1\<rparr>"

theorem puzzle_overlap_counterexample:
  "\<exists>p. puzzle overlap_args = Some p \<and> monsters p AND treasures p \<noteq> 0"
  by (simp add: puzzle_def overlap_args_def set_positions_def pos_set_def)

text \<open>
  C6, amended. When no position of the board is listed both among the monsters in use
  and among the treasures in use, the monster grid and the treasure grid of the
  constructed record share no set bit.
\<close>

theorem puzzle_disjoint_lists:
  assumes "puzzle args = Some p"
    and "\<forall>a \<in> set (take (unat (arg_monsters_count args)) (arg_monsters args)).
           \<forall>b \<in> set (take (unat (arg_treasures_count args)) (arg_treasures args)).
             in_grid a \<longrightarrow> in_grid b \<longrightarrow> \<not> (row a = row b \<and> col a = col b)"
  shows "monsters p AND treasures p = 0"
proof -
  have m: "monsters p = set_positions (arg_monsters args) (arg_monsters_count args)"
    and t: "treasures p = set_positions (arg_treasures args) (arg_treasures_count args)"
    using assms(1) by (auto simp: puzzle_def split: if_splits)
  have "\<not> (bit (monsters p) n \<and> bit (treasures p) n)" for n
  proof
    assume "bit (monsters p) n \<and> bit (treasures p) n"
    then obtain a b
      where a: "a \<in> set (take (unat (arg_monsters_count args)) (arg_monsters args))"
        "in_grid a" "n = pos_bit a"
      and b: "b \<in> set (take (unat (arg_treasures_count args)) (arg_treasures args))"
        "in_grid b" "n = pos_bit b"
      by (auto simp: m t bit_set_positions)
    have "pos_bit a = pos_bit b" using a(3) b(3) by simp
    then have "row a = row b \<and> col a = col b"
      by (rule pos_bit_inj [OF a(2) b(2)])
    with assms(2) a(1,2) b(1,2) show False by blast
  qed
  then show ?thesis by (intro bit_eqI) (simp add: bit_and_iff)
qed

definition disjoint_args :: PuzzleArgs where
  "disjoint_args =
     \<lparr>arg_row_wall_counts = replicate 8 0, arg_col_wall_counts = replicate 8 0,
      arg_monsters = replicate 64 \<lparr>row = 7, col = 5\<rparr>, arg_monsters_count = 1,
      arg_treasures = replicate 64 \<lparr>row = 1, col = 1\<rparr>, arg_treasures_count = 1\<rparr>"

theorem puzzle_disjoint_lists_witness:
  "\<exists>p. puzzle disjoint_args = Some p \<and> monsters p = 4 \<and> treasures p = 18014398509481984
        \<and> monsters p AND treasures p = 0"
proof -
  obtain p where p: "puzzle disjoint_args = Some p"
    by (simp add: puzzle_def disjoint_args_def)
  have "monsters p AND treasures p = 0"
    by (rule puzzle_disjoint_lists [OF p]) (simp add: disjoint_args_def)
  moreover have "monsters p = 4 \<and> treasures p = 18014398509481984"
    using p by (auto simp: puzzle_def disjoint_args_def set_positions_def pos_set_def)
  ultimately show ?thesis using p by simp
qed

section \<open>The loop of the solver\<close>

text \<open>
  The outer loop of \<open>solve\<close> is not structural. It terminates because the search tries
  a wall before an open cell at every slot: a wall at slot \<open>i\<close> below the current slot
  stands for an open branch still to be tried and weighs \<open>4 ^ (64 - i)\<close>; the current
  slot weighs twice that while it is still open. Every iteration lowers the sum.
\<close>

fun wall_weight :: "u64 \<Rightarrow> nat \<Rightarrow> nat" where
  "wall_weight m 0 = 0"
| "wall_weight m (Suc i) =
     wall_weight m i + (if slot_is_set m (int i) \<noteq> 0 then 4 ^ (64 - i) else 0)"

definition solve_measure :: "solve_state \<Rightarrow> nat" where
  "solve_measure st =
     (if 0 \<le> slot st \<and> slot st < 64
      then wall_weight (solution st) (Suc (nat (slot st))) +
           (if slot_is_set (solution st) (slot st) \<noteq> 0 then 0
            else 2 * 4 ^ (64 - nat (slot st)))
      else 0)"

definition toggle :: "u64 \<Rightarrow> int \<Rightarrow> u64" where
  "toggle m s = (if \<not> (slot_is_set m s \<noteq> 0) then slot_set m s else slot_unset m s)"

lemma wall_weight_cong:
  "(\<And>i. i < k \<Longrightarrow> (slot_is_set m (int i) \<noteq> 0) = (slot_is_set m' (int i) \<noteq> 0)) \<Longrightarrow>
   wall_weight m k = wall_weight m' k"
  by (induction k) auto

lemma toggle_other:
  "i \<noteq> s \<Longrightarrow> (slot_is_set (toggle m s) i \<noteq> 0) = (slot_is_set m i \<noteq> 0)"
  by (auto simp: toggle_def slot_is_set_iff bit_slot_set bit_slot_unset)

lemma toggle_same:
  "0 \<le> s \<Longrightarrow> s < 64 \<Longrightarrow> (slot_is_set (toggle m s) s \<noteq> 0) = (\<not> (slot_is_set m s \<noteq> 0))"
  by (auto simp: toggle_def slot_is_set_iff bit_slot_set bit_slot_unset)

lemma wall_weight_toggle:
  "wall_weight (toggle m (int k)) k = wall_weight m k"
  by (rule wall_weight_cong) (simp add: toggle_other)

lemma backtrack_unfold:
  "backtrack m s = (if s \<ge> 0 \<and> \<not> (slot_is_set m s \<noteq> 0) then backtrack m (s - 1) else s)"
  by (rule backtrack.simps)

lemma backtrack_range:
  "- 1 \<le> s \<Longrightarrow> - 1 \<le> backtrack m s \<and> backtrack m s \<le> s"
proof (induction m s rule: backtrack.induct)
  case (1 m s)
  show ?case
  proof (cases "s \<ge> 0 \<and> \<not> (slot_is_set m s \<noteq> 0)")
    case True
    then have "backtrack m s = backtrack m (s - 1)" by (subst backtrack_unfold) simp
    with True 1 show ?thesis by auto
  next
    case False
    then have "backtrack m s = s" by (subst backtrack_unfold) auto
    with 1 show ?thesis by simp
  qed
qed

lemma backtrack_set:
  "0 \<le> backtrack m s \<Longrightarrow> slot_is_set m (backtrack m s) \<noteq> 0"
proof (induction m s rule: backtrack.induct)
  case (1 m s)
  show ?case
  proof (cases "s \<ge> 0 \<and> \<not> (slot_is_set m s \<noteq> 0)")
    case True
    then have "backtrack m s = backtrack m (s - 1)" by (subst backtrack_unfold) simp
    with True 1 show ?thesis by auto
  next
    case False
    then have "backtrack m s = s" by (subst backtrack_unfold) auto
    with 1 False show ?thesis by auto
  qed
qed

lemma backtrack_weight:
  "- 1 \<le> s \<Longrightarrow> wall_weight m (nat (backtrack m s + 1)) = wall_weight m (nat (s + 1))"
proof (induction m s rule: backtrack.induct)
  case (1 m s)
  show ?case
  proof (cases "s \<ge> 0 \<and> \<not> (slot_is_set m s \<noteq> 0)")
    case True
    then have bt: "backtrack m s = backtrack m (s - 1)" by (subst backtrack_unfold) simp
    have n: "nat (s + 1) = Suc (nat s)" "nat (s - 1 + 1) = nat s" "int (nat s) = s"
      using True by auto
    have "wall_weight m (nat (backtrack m (s - 1) + 1)) = wall_weight m (nat (s - 1 + 1))"
      using True 1 by auto
    then show ?thesis using True by (simp add: bt n)
  next
    case False
    then have "backtrack m s = s" by (subst backtrack_unfold) auto
    then show ?thesis by simp
  qed
qed

lemma solve_body_toggle:
  "solve_body pz mx st =
     (let sol = toggle (solution st) (slot st); ok = constraints_hold pz sol (slot st)
      in if ok \<and> slot st < 63 then st\<lparr>solution := sol, slot := slot st + 1\<rparr>
         else
           (let st1 = (if ok
                  then st\<lparr>solution := sol,
                         solution_i := solution_i st + 1,
                         solutions := (if solution_i st \<ge> mx then solutions st
                                       else (solutions st)[unat (solution_i st) := sol])\<rparr>
                  else st\<lparr>solution := sol\<rparr>)
            in st1\<lparr>slot := backtrack sol (slot st)\<rparr>))"
  by (simp only: solve_body_def toggle_def)

lemma solve_body_decreases:
  assumes "0 \<le> slot st" "slot st < 64"
  shows "solve_measure (solve_body pz mx st) < solve_measure st"
proof -
  define s where "s = nat (slot st)"
  define m where "m = solution st"
  define m' where "m' = toggle m (slot st)"
  have s: "slot st = int s" "s < 64" using assms by (auto simp: s_def)
  have pw: "(4::nat) ^ (64 - s) = 4 * 4 ^ (63 - s)"
    using s(2) by (simp add: Suc_diff_le flip: power_Suc)
  have ww: "wall_weight m' s = wall_weight m s"
    unfolding m'_def s by (rule wall_weight_toggle)
  have same: "(slot_is_set m' (int s) \<noteq> 0) = (\<not> (slot_is_set m (int s) \<noteq> 0))"
    unfolding m'_def s using s(2) by (simp add: toggle_same)
  have M: "solve_measure st = wall_weight m s +
      (if slot_is_set m (int s) \<noteq> 0 then 4 ^ (64 - s) else 2 * 4 ^ (64 - s))"
    using s by (simp add: solve_measure_def m_def)
  let ?ok = "constraints_hold pz m' (slot st)"
  show ?thesis
  proof (cases "?ok \<and> slot st < 63")
    case True
    then have body: "solve_body pz mx st = st\<lparr>solution := m', slot := int (Suc s)\<rparr>"
      by (simp add: solve_body_toggle Let_def m'_def m_def s add.commute)
    have s63: "s < 63" using True s by simp
    have sl: "slot (solve_body pz mx st) = int (Suc s)" "solution (solve_body pz mx st) = m'"
      by (simp_all add: body)
    have "solve_measure (solve_body pz mx st) =
        wall_weight m' (Suc (Suc s)) +
        (if slot_is_set m' (int (Suc s)) \<noteq> 0 then 0 else 2 * 4 ^ (64 - Suc s))"
      unfolding solve_measure_def sl using s63 by (simp only: nat_int) simp
    also have "\<dots> \<le> wall_weight m' (Suc s) + 2 * 4 ^ (63 - s)"
      by (simp del: wall_weight.simps add: wall_weight.simps(2) [of m' "Suc s"])
    finally have "solve_measure (solve_body pz mx st) \<le> wall_weight m' (Suc s) + 2 * 4 ^ (63 - s)" .
    also have "\<dots> < solve_measure st"
      unfolding M using same ww pw by auto
    finally show ?thesis .
  next
    case False
    define j where "j = backtrack m' (int s)"
    have body_slot: "slot (solve_body pz mx st) = j" "solution (solve_body pz mx st) = m'"
      using False by (auto simp: solve_body_toggle Let_def m'_def m_def s j_def)
    have jr: "- 1 \<le> j" "j \<le> int s" using backtrack_range [of "int s" m'] by (auto simp: j_def)
    show ?thesis
    proof (cases "j < 0")
      case True
      then have "solve_measure (solve_body pz mx st) = 0"
        by (simp add: solve_measure_def body_slot)
      then show ?thesis unfolding M by auto
    next
      case False
      then have js: "slot_is_set m' j \<noteq> 0" using backtrack_set [of m' "int s"] by (simp add: j_def)
      have "wall_weight m' (nat (j + 1)) = wall_weight m' (nat (int s + 1))"
        unfolding j_def by (rule backtrack_weight) simp
      then have jw: "wall_weight m' (Suc (nat j)) = wall_weight m' (Suc s)"
        using False by (simp add: nat_add_distrib)
      have "solve_measure (solve_body pz mx st) = wall_weight m' (Suc s)"
        using False jr s(2) js jw by (simp add: solve_measure_def body_slot)
      then show ?thesis unfolding M using same ww pw by auto
    qed
  qed
qed

function solve_loop :: "Puzzle \<Rightarrow> u64 \<Rightarrow> solve_state \<Rightarrow> solve_state" where
  "solve_loop pz max_solutions st =
     (if 0 \<le> slot st \<and> slot st < 64
      then solve_loop pz max_solutions (solve_body pz max_solutions st) else st)"
  by pat_completeness auto
termination
  by (relation "measure (\<lambda>(pz, max_solutions, st). solve_measure st)")
     (auto simp: solve_body_decreases)

declare solve_loop.simps [simp del]

text \<open>
  \<open>solve\<close> takes the puzzle, the caller's buffer and its length, and returns the
  number of solutions found together with the buffer.
\<close>

definition solve :: "Puzzle \<Rightarrow> u64 list \<Rightarrow> u64 \<Rightarrow> u64 \<times> u64 list" where
  "solve pz buf max_solutions =
     (let st = solve_loop pz max_solutions
                 \<lparr>solution = 0, slot = 0, solution_i = 0, solutions = buf\<rparr>
      in (solution_i st, solutions st))"

section \<open>Evaluating the constraints and the loop\<close>

lemmas grid_eval =
  pos_from_slot_def pos_set_def pos_unset_def pos_is_set_def
  slot_set_def slot_unset_def slot_is_set_def
  signed_divide_int_def signed_modulo_int_def
  count_set_bits_def count_set_bits_loop.simps

lemmas constraint_eval =
  constraints_hold_def check_doesnt_overlap_def check_row_count_def check_col_count_def
  check_dead_ends_def check_monsters_def check_wide_space_def check_treasure_rooms_def
  is_dead_end_def is_invalid_monster_def is_invalid_treasure_def is_invalid_treasure_room_def
  border_of_def wide_space_mask_def wide_space_neighbors_def room_mask_of_def walls_mask_of_def
  count_walls_in_row_def count_walls_in_col_def board_range_def Let_def

lemma solve_loop_step:
  "0 \<le> slot st \<Longrightarrow> slot st < 64 \<Longrightarrow>
   solve_loop pz mx st = solve_loop pz mx (solve_body pz mx st)"
  by (subst solve_loop.simps) simp

lemma solve_loop_stop:
  "slot st < 0 \<or> 64 \<le> slot st \<Longrightarrow> solve_loop pz mx st = st"
  by (subst solve_loop.simps) auto

lemma toggle_zero: "0 \<le> s \<Longrightarrow> s < 64 \<Longrightarrow> toggle 0 s = slot_set 0 s"
  by (simp add: toggle_def slot_is_set_def)

lemma toggle_back: "0 \<le> s \<Longrightarrow> s < 64 \<Longrightarrow> toggle (slot_set 0 s) s = 0"
proof -
  assume s: "0 \<le> s" "s < 64"
  then have "slot_is_set (slot_set 0 s) s \<noteq> 0"
    by (simp add: slot_is_set_iff bit_slot_set)
  moreover have "slot_unset (slot_set 0 s) s = 0"
    by (rule bit_eqI) (auto simp: bit_slot_unset bit_slot_set)
  ultimately show ?thesis by (simp add: toggle_def)
qed

lemma backtrack_at_wall:
  "0 \<le> s \<Longrightarrow> s < 64 \<Longrightarrow> backtrack (slot_set 0 s) s = s"
  by (subst backtrack_unfold) (simp add: slot_is_set_iff bit_slot_set)

lemma backtrack_zero: "- 1 \<le> s \<Longrightarrow> backtrack 0 s = - 1"
proof (induction "0 :: u64" s rule: backtrack.induct)
  case (1 s)
  show ?case
  proof (cases "0 \<le> s")
    case True
    then have "backtrack 0 s = backtrack 0 (s - 1)"
      by (subst backtrack_unfold) (simp add: slot_is_set_def)
    with True 1 show ?thesis by (simp add: slot_is_set_def)
  next
    case False
    with 1 have "s = - 1" by simp
    then show ?thesis by (subst backtrack_unfold) simp
  qed
qed

text \<open>
  A slot where the wall is refused first: the loop comes back to the same slot with the
  wall still set, and the next iteration opens the cell.
\<close>

lemma solve_loop_wall_refused:
  assumes s: "0 \<le> s" "s < 64" and no: "\<not> constraints_hold pz (slot_set 0 s) s"
  shows "solve_loop pz mx \<lparr>solution = 0, slot = s, solution_i = i, solutions = b\<rparr> =
         solve_loop pz mx
           (solve_body pz mx \<lparr>solution = slot_set 0 s, slot = s, solution_i = i, solutions = b\<rparr>)"
proof -
  have "solve_body pz mx \<lparr>solution = 0, slot = s, solution_i = i, solutions = b\<rparr> =
        \<lparr>solution = slot_set 0 s, slot = s, solution_i = i, solutions = b\<rparr>"
    using s no by (simp add: solve_body_toggle toggle_zero backtrack_at_wall)
  then show ?thesis using s by (simp add: solve_loop_step)
qed

lemma solve_loop_open_accepted:
  assumes s: "0 \<le> s" "s < 63" and no: "\<not> constraints_hold pz (slot_set 0 s) s"
    and yes: "constraints_hold pz 0 s"
  shows "solve_loop pz mx \<lparr>solution = 0, slot = s, solution_i = i, solutions = b\<rparr> =
         solve_loop pz mx \<lparr>solution = 0, slot = s + 1, solution_i = i, solutions = b\<rparr>"
proof -
  have "solve_body pz mx \<lparr>solution = slot_set 0 s, slot = s, solution_i = i, solutions = b\<rparr> =
        \<lparr>solution = 0, slot = s + 1, solution_i = i, solutions = b\<rparr>"
    using s yes by (simp add: solve_body_toggle toggle_back)
  moreover have "solve_loop pz mx \<lparr>solution = 0, slot = s, solution_i = i, solutions = b\<rparr> =
         solve_loop pz mx
           (solve_body pz mx \<lparr>solution = slot_set 0 s, slot = s, solution_i = i, solutions = b\<rparr>)"
    using s no by (intro solve_loop_wall_refused) simp_all
  ultimately show ?thesis by simp
qed

lemma solve_loop_both_refused:
  assumes s: "0 \<le> s" "s < 64" and no: "\<not> constraints_hold pz (slot_set 0 s) s"
    and no': "\<not> constraints_hold pz 0 s"
  shows "solve_loop pz mx \<lparr>solution = 0, slot = s, solution_i = i, solutions = b\<rparr> =
         \<lparr>solution = 0, slot = - 1, solution_i = i, solutions = b\<rparr>"
proof -
  have "solve_body pz mx \<lparr>solution = slot_set 0 s, slot = s, solution_i = i, solutions = b\<rparr> =
        \<lparr>solution = 0, slot = - 1, solution_i = i, solutions = b\<rparr>"
    using s no' by (simp add: solve_body_toggle toggle_back backtrack_zero)
  moreover have "solve_loop pz mx \<lparr>solution = 0, slot = s, solution_i = i, solutions = b\<rparr> =
         solve_loop pz mx
           (solve_body pz mx \<lparr>solution = slot_set 0 s, slot = s, solution_i = i, solutions = b\<rparr>)"
    using s no by (intro solve_loop_wall_refused) simp_all
  ultimately show ?thesis by (simp add: solve_loop_stop)
qed

section \<open>The puzzle with all targets 0\<close>

definition zero_puzzle :: Puzzle where
  "zero_puzzle = \<lparr>row_wall_counts = replicate 8 0, col_wall_counts = replicate 8 0,
     monsters = 0, treasures = 0\<rparr>"

lemma zero_wall_refused:
  "list_all (\<lambda>s. \<not> check_row_count zero_puzzle (slot_set 0 s) s) [0, 1, 2, 3, 4, 5, 6, 7, 8, 9]"
  by (simp add: constraint_eval grid_eval zero_puzzle_def)

lemma zero_open_accepted:
  "list_all (\<lambda>s. constraints_hold zero_puzzle 0 s) [0, 1, 2, 3, 4, 5, 6, 7, 8]"
  by (simp add: constraint_eval grid_eval zero_puzzle_def)

lemma zero_open_wide: "\<not> check_wide_space zero_puzzle 0 9"
  by (simp add: constraint_eval grid_eval zero_puzzle_def)

lemma solve_loop_zero_puzzle:
  "solve_loop zero_puzzle mx \<lparr>solution = 0, slot = 0, solution_i = i, solutions = b\<rparr> =
   \<lparr>solution = 0, slot = - 1, solution_i = i, solutions = b\<rparr>"
proof -
  have w: "\<not> constraints_hold zero_puzzle (slot_set 0 s) s" if "s \<in> {0, 1, 2, 3, 4, 5, 6, 7, 8, 9}" for s
    using that zero_wall_refused by (auto simp: constraints_hold_def)
  have a: "constraints_hold zero_puzzle 0 s" if "s \<in> {0, 1, 2, 3, 4, 5, 6, 7, 8}" for s
    using that zero_open_accepted by auto
  have n: "\<not> constraints_hold zero_puzzle 0 9"
    using zero_open_wide by (simp add: constraints_hold_def)
  note st = solve_loop_open_accepted [where pz = zero_puzzle and mx = mx and i = i and b = b]
  have "solve_loop zero_puzzle mx \<lparr>solution = 0, slot = 0, solution_i = i, solutions = b\<rparr> =
        solve_loop zero_puzzle mx \<lparr>solution = 0, slot = 9, solution_i = i, solutions = b\<rparr>"
    by (simp add: st [of 0] st [of 1] st [of 2] st [of 3] st [of 4] st [of 5] st [of 6]
          st [of 7] st [of 8] w a)
  also have "\<dots> = \<lparr>solution = 0, slot = - 1, solution_i = i, solutions = b\<rparr>"
    by (rule solve_loop_both_refused) (simp_all add: w n)
  finally show ?thesis .
qed

text \<open>
  C5, as the code has it. With all sixteen targets 0 and no monster or treasure, a wall
  is refused everywhere by the row count, so the only candidate is the all-open grid, and
  \<open>check_wide_space\<close> refuses that one at slot 9, where the 2x2 block of the cells 0, 1,
  8 and 9 is open with no treasure near it. \<open>solve\<close> does not return the count 1.
\<close>

theorem solve_zero_puzzle_counterexample:
  "fst (solve zero_puzzle [0] 1) \<noteq> 1"
  by (simp add: solve_def solve_loop_zero_puzzle)

text \<open>
  C5, amended. For the puzzle whose row and column targets are all 0 and whose monster
  and treasure sets are empty, \<open>solve\<close> returns the count 0 and leaves the buffer as it
  was, for every buffer and capacity: the all-open grid fails the wide-space constraint.
\<close>

theorem solve_zero_puzzle_none:
  "solve zero_puzzle buf max_solutions = (0, buf) \<and> \<not> check_wide_space zero_puzzle 0 9"
  by (simp add: solve_def solve_loop_zero_puzzle zero_open_wide)

section \<open>The capacity of the solver's buffer\<close>

text \<open>
  Two runs of the loop on the same puzzle with different buffers go through the same
  grids, slots and counts; their buffers agree on every index that both have and that
  has been written.
\<close>

definition lockstep :: "u64 \<Rightarrow> u64 \<Rightarrow> solve_state \<Rightarrow> solve_state \<Rightarrow> bool" where
  "lockstep c1 c2 st1 st2 =
     (solution st1 = solution st2 \<and> slot st1 = slot st2 \<and>
      solution_i st1 = solution_i st2 \<and>
      length (solutions st1) = unat c1 \<and> length (solutions st2) = unat c2 \<and>
      (\<forall>k. k < unat (solution_i st1) \<and> k < unat c1 \<and> k < unat c2 \<longrightarrow>
           solutions st1 ! k = solutions st2 ! k))"

lemma unat_succ_cases:
  "unat (i + 1 :: u64) = 0 \<or> unat (i + 1) = Suc (unat i)"
  by (metis Suc_eq_plus1 add.commute unatSuc unat_eq_zero)

lemma solve_body_lockstep:
  assumes "lockstep c1 c2 st1 st2"
  shows "lockstep c1 c2 (solve_body pz c1 st1) (solve_body pz c2 st2)"
proof -
  define g where "g = toggle (solution st1) (slot st1)"
  define i where "i = solution_i st1"
  have eq: "solution st2 = solution st1" "slot st2 = slot st1" "solution_i st2 = i"
    and len: "length (solutions st1) = unat c1" "length (solutions st2) = unat c2"
    and agree: "\<And>k. k < unat i \<Longrightarrow> k < unat c1 \<Longrightarrow> k < unat c2 \<Longrightarrow>
                  solutions st1 ! k = solutions st2 ! k"
    using assms by (auto simp: lockstep_def i_def)
  define b1 where "b1 = (if i \<ge> c1 then solutions st1 else (solutions st1)[unat i := g])"
  define b2 where "b2 = (if i \<ge> c2 then solutions st2 else (solutions st2)[unat i := g])"
  have blen: "length b1 = unat c1" "length b2 = unat c2"
    by (simp_all add: b1_def b2_def len)
  have bagree: "b1 ! k = b2 ! k" if k: "k < unat (i + 1)" "k < unat c1" "k < unat c2" for k
  proof -
    from k(1) unat_succ_cases [of i] have "k \<le> unat i" by auto
    show ?thesis
    proof (cases "k = unat i")
      case True
      then have "\<not> c1 \<le> i" "\<not> c2 \<le> i" using k by (simp_all add: word_le_nat_alt)
      then show ?thesis using True k len by (simp add: b1_def b2_def)
    next
      case False
      with \<open>k \<le> unat i\<close> have "k < unat i" by simp
      then show ?thesis using False agree [of k] k by (simp add: b1_def b2_def)
    qed
  qed
  define ok where "ok = constraints_hold pz g (slot st1)"
  define j where "j = backtrack g (slot st1)"
  have B1: "solve_body pz c1 st1 =
      (if ok \<and> slot st1 < 63 then st1\<lparr>solution := g, slot := slot st1 + 1\<rparr>
       else if ok then st1\<lparr>solution := g, solution_i := i + 1, solutions := b1, slot := j\<rparr>
       else st1\<lparr>solution := g, slot := j\<rparr>)"
    by (simp add: solve_body_toggle Let_def g_def i_def b1_def ok_def j_def)
  have B2: "solve_body pz c2 st2 =
      (if ok \<and> slot st1 < 63 then st2\<lparr>solution := g, slot := slot st1 + 1\<rparr>
       else if ok then st2\<lparr>solution := g, solution_i := i + 1, solutions := b2, slot := j\<rparr>
       else st2\<lparr>solution := g, slot := j\<rparr>)"
    by (simp add: solve_body_toggle Let_def eq g_def b2_def ok_def j_def)
  consider "ok \<and> slot st1 < 63" | "ok \<and> \<not> slot st1 < 63" | "\<not> ok" by blast
  then show ?thesis
  proof cases
    case 1
    then show ?thesis using len agree eq by (simp add: B1 B2 lockstep_def i_def)
  next
    case 2
    then show ?thesis using blen bagree by (simp add: B1 B2 lockstep_def)
  next
    case 3
    then show ?thesis using len agree eq by (simp add: B1 B2 lockstep_def i_def)
  qed
qed

lemma solve_loop_lockstep:
  "lockstep c1 c2 st1 st2 \<Longrightarrow>
   lockstep c1 c2 (solve_loop pz c1 st1) (solve_loop pz c2 st2)"
proof (induction pz c1 st1 arbitrary: st2 rule: solve_loop.induct)
  case (1 pz c1 st1)
  have sl: "slot st2 = slot st1" using "1.prems" by (simp add: lockstep_def)
  show ?case
  proof (cases "0 \<le> slot st1 \<and> slot st1 < 64")
    case True
    have "lockstep c1 c2 (solve_loop pz c1 (solve_body pz c1 st1))
            (solve_loop pz c2 (solve_body pz c2 st2))"
      using True "1.prems" by (intro "1.IH" solve_body_lockstep) simp_all
    then show ?thesis using True sl by (simp add: solve_loop_step)
  next
    case False
    then have "slot st1 < 0 \<or> 64 \<le> slot st1" by auto
    then show ?thesis using "1.prems" sl by (simp add: solve_loop_stop)
  qed
qed

text \<open>
  The solutions a caller reads back: the first \<open>min count capacity\<close> entries of the
  buffer.
\<close>

definition stored_solutions :: "Puzzle \<Rightarrow> u64 list \<Rightarrow> u64 \<Rightarrow> u64 list" where
  "stored_solutions pz buf max_solutions =
     (let (n, out) = solve pz buf max_solutions
      in take (min (unat n) (unat max_solutions)) out)"

lemma solve_lockstep:
  assumes "length b1 = unat c1" "length b2 = unat c2"
  shows "lockstep c1 c2
           (solve_loop pz c1 \<lparr>solution = 0, slot = 0, solution_i = 0, solutions = b1\<rparr>)
           (solve_loop pz c2 \<lparr>solution = 0, slot = 0, solution_i = 0, solutions = b2\<rparr>)"
  by (rule solve_loop_lockstep) (simp add: lockstep_def assms)

section \<open>What \<open>count_set_bits\<close> counts\<close>

definition bits_of :: "u64 \<Rightarrow> nat set" where
  "bits_of w = {n. bit w n}"

lemma finite_bits_of: "finite (bits_of w)"
proof -
  have "bits_of w \<subseteq> {..<64}"
    by (auto simp: bits_of_def dest: bit_imp_le_length)
  then show ?thesis by (rule finite_subset) simp
qed

lemma card_bits_of_le: "card (bits_of w) \<le> 64"
proof -
  have "bits_of w \<subseteq> {..<64}"
    by (auto simp: bits_of_def dest: bit_imp_le_length)
  then have "card (bits_of w) \<le> card {..<64::nat}" by (intro card_mono) simp_all
  then show ?thesis by simp
qed

text \<open>
  Subtracting 1 from a nonzero word clears its lowest set bit and sets the bits below
  it, so \<open>n AND (n - 1)\<close> is \<open>n\<close> without its lowest set bit.
\<close>

lemma and_pred_bits:
  fixes w :: u64
  assumes "w \<noteq> 0"
  shows "\<exists>k. bit w k \<and> bits_of (w AND (w - 1)) = bits_of w - {k}"
proof -
  from assms obtain j where "bit w j" by (auto simp: word_nonzero_bit)
  define k where "k = (LEAST j. bit w j)"
  have k: "bit w k" unfolding k_def using \<open>bit w j\<close> by (rule LeastI)
  have low: "\<not> bit w i" if "i < k" for i
    using that not_less_Least unfolding k_def by blast
  have len: "n < 64" if "bit w n" for n
    using that by (auto dest: bit_imp_le_length)
  define h where "h = w AND NOT (mask (Suc k))"
  define kb :: u64 where "kb = 2 ^ k"
  have bit_h: "bit h n = (bit w n \<and> k < n)" for n
    using len [of n] by (auto simp: h_def bit_and_iff bit_not_iff bit_mask_iff)
  have bit_k: "bit kb n = (n = k)" for n
    using len [OF k] by (auto simp: kb_def bit_exp_iff)
  have "w = h OR kb"
  proof (rule bit_eqI)
    fix n
    show "bit w n = bit (h OR kb) n"
      using k low [of n] by (cases "n < k"; cases "n = k") (simp_all add: bit_or_iff bit_h bit_k)
  qed
  also have "\<dots> = h + kb"
    by (rule disjunctive_add [symmetric]) (simp add: bit_h bit_k)
  finally have w: "w = h + kb" .
  have "w - 1 = h + (kb - 1)" by (subst w) simp
  also have "kb - 1 = (mask k :: u64)"
    by (simp only: mask_eq_exp_minus_1 kb_def)
  finally have "w - 1 = h + mask k" .
  also have "\<dots> = h OR mask k"
    by (rule disjunctive_add) (auto simp: bit_h bit_mask_iff)
  finally have pred: "w - 1 = h OR mask k" .
  have "bit (w AND (w - 1)) n = (bit w n \<and> n \<noteq> k)" for n
    unfolding pred using low [of n]
    by (cases "n < k"; cases "n = k") (simp_all add: bit_and_iff bit_or_iff bit_h bit_mask_iff)
  then have "bits_of (w AND (w - 1)) = bits_of w - {k}"
    by (auto simp: bits_of_def)
  with k show ?thesis by blast
qed

lemma count_set_bits_loop_card:
  "count_set_bits_loop n count = count + int (card (bits_of n))"
proof (induction n count rule: count_set_bits_loop.induct)
  case (1 n count)
  show ?case
  proof (cases "n = 0")
    case True
    then have "count_set_bits_loop n count = count"
      by (subst count_set_bits_loop.simps) simp
    then show ?thesis using True by (simp add: bits_of_def)
  next
    case False
    then obtain k where k: "bit n k" "bits_of (n AND (n - 1)) = bits_of n - {k}"
      using and_pred_bits by blast
    have "k \<in> bits_of n" using k(1) by (simp add: bits_of_def)
    with finite_bits_of [of n] have "card (bits_of n) = Suc (card (bits_of n - {k}))"
      by (rule card.remove)
    moreover have "count_set_bits_loop n count =
        count_set_bits_loop (n AND (n - 1)) (count + 1)"
      using False by (subst count_set_bits_loop.simps) simp
    moreover have "count_set_bits_loop (n AND (n - 1)) (count + 1) =
        count + 1 + int (card (bits_of n - {k}))"
      using "1.IH" [OF False] by (simp only: k(2))
    ultimately show ?thesis by simp
  qed
qed

lemma count_set_bits_card: "count_set_bits n = int (card (bits_of n))"
  by (simp add: count_set_bits_def count_set_bits_loop_card)

lemma count_set_bits_range: "0 \<le> count_set_bits n \<and> count_set_bits n \<le> 64"
  using card_bits_of_le [of n] by (simp add: count_set_bits_card)

lemma count_set_bits_mono:
  "a AND b = a \<Longrightarrow> count_set_bits a \<le> count_set_bits b"
proof -
  assume "a AND b = a"
  then have "bit a n \<Longrightarrow> bit b n" for n
    using bit_and_iff [of a b n] by simp
  then have "bits_of a \<subseteq> bits_of b"
    by (auto simp: bits_of_def)
  then show ?thesis
    using finite_bits_of [of b] by (simp add: count_set_bits_card card_mono)
qed

lemma count_set_bits_split:
  "count_set_bits (m AND g) + count_set_bits (m AND NOT g) = count_set_bits m"
proof -
  have "bit (m AND NOT g) n = (bit m n \<and> \<not> bit g n)" for n
    by (auto simp: bit_and_iff bit_not_iff dest: bit_imp_le_length)
  then have "bits_of m = bits_of (m AND g) \<union> bits_of (m AND NOT g)"
    and "bits_of (m AND g) \<inter> bits_of (m AND NOT g) = {}"
    by (auto simp: bits_of_def bit_and_iff)
  then have "card (bits_of m) = card (bits_of (m AND g)) + card (bits_of (m AND NOT g))"
    using card_Un_disjoint [OF finite_bits_of finite_bits_of, of "m AND g" "m AND NOT g"]
    by simp
  then show ?thesis by (simp add: count_set_bits_card)
qed

section \<open>The border of a treasure room\<close>

definition slot_of :: "Pos \<Rightarrow> int" where
  "slot_of p = row p * 8 + col p"

text \<open>
  The checks of \<open>is_invalid_treasure_room\<close> that come before the count of the border:
  the room is not whole, its interior meets a monster, another treasure or a wall, or
  its border meets a monster or a treasure.
\<close>

definition room_broken :: "Puzzle \<Rightarrow> u64 \<Rightarrow> Pos \<Rightarrow> Pos \<Rightarrow> bool" where
  "room_broken pz g treasure center =
     (room_mask_of center AND g \<noteq> 0 \<or>
      count_set_bits (room_mask_of center) \<noteq> 9 \<or>
      room_mask_of center AND monsters pz \<noteq> 0 \<or>
      room_mask_of center AND pos_unset (treasures pz) treasure \<noteq> 0 \<or>
      walls_mask_of center AND monsters pz \<noteq> 0 \<or>
      walls_mask_of center AND treasures pz \<noteq> 0)"

definition border_openings :: "Pos \<Rightarrow> u64 \<Rightarrow> int" where
  "border_openings center g = count_set_bits (walls_mask_of center AND NOT g)"

text \<open>The condition under which the source counts strictly.\<close>

definition strict_check :: "Pos \<Rightarrow> int \<Rightarrow> bool" where
  "strict_check center t =
     (let checked_pos = pos_from_slot t
      in (row checked_pos \<ge> row center + 2 \<and> col checked_pos \<ge> col center + 2) \<or>
         (row checked_pos = 7 \<and> col checked_pos = 7))"

text \<open>
  The condition as the claim words it: the toggled slot comes after the slot of the
  room's bottom-right corner, or is slot 63.
\<close>

definition beyond_corner_in_slot_order :: "Pos \<Rightarrow> int \<Rightarrow> bool" where
  "beyond_corner_in_slot_order center t =
     (t > slot_of \<lparr>row = row center + 1, col = col center + 1\<rparr> \<or> t = 63)"

definition one_treasure_puzzle :: Puzzle where
  "one_treasure_puzzle = \<lparr>row_wall_counts = replicate 8 0, col_wall_counts = replicate 8 0,
     monsters = 0, treasures = pos_set 0 \<lparr>row = 1, col = 1\<rparr>\<rparr>"

text \<open>
  C7, as the code has it. The room centered at (1, 1) has its bottom-right corner at
  slot 18. With slot 19 toggled the claim asks for exactly one opening in the border;
  on the empty grid the border has six, and the code still accepts the room, because
  slot 19 is in row 2 and the strict count starts in row 3.
\<close>

theorem treasure_room_slot_order_counterexample:
  "beyond_corner_in_slot_order \<lparr>row = 1, col = 1\<rparr> 19 \<and>
   border_openings \<lparr>row = 1, col = 1\<rparr> 0 = 6 \<and>
   \<not> is_invalid_treasure_room one_treasure_puzzle 0 \<lparr>row = 1, col = 1\<rparr> \<lparr>row = 1, col = 1\<rparr> 19"
  by (simp add: beyond_corner_in_slot_order_def slot_of_def border_openings_def
        one_treasure_puzzle_def constraint_eval grid_eval)

text \<open>
  C7, amended. For every candidate room that passes the earlier checks: if the toggled
  cell lies at least two rows below and at least two columns right of the room's center
  (beyond the bottom-right corner in both coordinates), or is the final cell, the room
  is invalid unless its border has exactly one non-wall cell; otherwise it is invalid
  only if its border has no non-wall cell.
\<close>

theorem treasure_room_border_rule:
  "is_invalid_treasure_room pz g treasure center t =
     (room_broken pz g treasure center \<or>
      (if strict_check center t then border_openings center g \<noteq> 1
       else border_openings center g = 0))"
proof -
  have "count_set_bits (walls_mask_of center AND g) =
        count_set_bits (walls_mask_of center) - border_openings center g"
    using count_set_bits_split [of "walls_mask_of center" g]
    by (simp add: border_openings_def)
  then show ?thesis
    by (auto simp: is_invalid_treasure_room_def room_broken_def strict_check_def Let_def)
qed

theorem treasure_room_border_rule_witness:
  "strict_check \<lparr>row = 1, col = 1\<rparr> 27 \<and>
   \<not> room_broken one_treasure_puzzle 0 \<lparr>row = 1, col = 1\<rparr> \<lparr>row = 1, col = 1\<rparr> \<and>
   border_openings \<lparr>row = 1, col = 1\<rparr> 0 = 6 \<and>
   is_invalid_treasure_room one_treasure_puzzle 0 \<lparr>row = 1, col = 1\<rparr> \<lparr>row = 1, col = 1\<rparr> 27"
proof -
  have a: "strict_check \<lparr>row = 1, col = 1\<rparr> 27"
    by (simp add: strict_check_def grid_eval)
  have b: "border_openings \<lparr>row = 1, col = 1\<rparr> 0 = 6"
    by (simp add: border_openings_def constraint_eval grid_eval)
  have c: "\<not> room_broken one_treasure_puzzle 0 \<lparr>row = 1, col = 1\<rparr> \<lparr>row = 1, col = 1\<rparr>"
    by (simp add: room_broken_def one_treasure_puzzle_def constraint_eval grid_eval)
  show ?thesis
    using a b c
      treasure_room_border_rule [of one_treasure_puzzle 0 "\<lparr>row = 1, col = 1\<rparr>"
        "\<lparr>row = 1, col = 1\<rparr>" 27]
    by simp
qed

section \<open>The generator\<close>

text \<open>
  \<open>generate\<close> searches the tiles of all 64 slots. Its local variables \<open>puzzle\<close>,
  \<open>solution\<close> and \<open>slot\<close> are the fields \<open>g_puzzle\<close>, \<open>g_solution\<close> and \<open>g_slot\<close>
  of the loop's state; \<open>puzzle_tiles\<close> is the array of 64 tags, read and written at
  the current slot only, which the loop keeps inside 0-63. The field \<open>returned\<close> is set
  by the \<open>return\<close> inside the loop. The fields of a \<open>GeneratedPuzzle\<close> are
  \<open>gp_puzzle\<close> and \<open>num_solutions\<close>.
\<close>

datatype Tile = EMPTY | WALL | MONSTER | TREASURE

record GeneratedPuzzle =
  gp_puzzle :: Puzzle
  num_solutions :: u64

record gen_state =
  puzzle_tiles :: "int \<Rightarrow> Tile"
  g_puzzle :: Puzzle
  g_solution :: u64
  g_slot :: int
  puzzle_i :: u64
  puzzles :: "GeneratedPuzzle list"
  returned :: bool

function gen_backtrack :: "(int \<Rightarrow> Tile) \<Rightarrow> int \<Rightarrow> int" where
  "gen_backtrack tiles s =
     (if s \<ge> 0 \<and> tiles s = EMPTY then gen_backtrack tiles (s - 1) else s)"
  by pat_completeness auto
termination
  by (relation "measure (\<lambda>(tiles, s). nat (s + 1))") auto

declare gen_backtrack.simps [simp del]

text \<open>The \<open>switch\<close>: undo the tile of the slot and choose the next one.\<close>

definition cycle_tile :: "gen_state \<Rightarrow> gen_state" where
  "cycle_tile st =
     (let s = g_slot st; pz = g_puzzle st in
      case puzzle_tiles st s of
        TREASURE \<Rightarrow>
          st\<lparr>puzzle_tiles := (puzzle_tiles st)(s := MONSTER),
             g_puzzle := pz\<lparr>treasures := slot_unset (treasures pz) s,
                            monsters := slot_set (monsters pz) s\<rparr>\<rparr>
      | MONSTER \<Rightarrow>
          st\<lparr>puzzle_tiles := (puzzle_tiles st)(s := WALL),
             g_puzzle := pz\<lparr>monsters := slot_unset (monsters pz) s\<rparr>,
             g_solution := slot_set (g_solution st) s\<rparr>
      | WALL \<Rightarrow>
          st\<lparr>puzzle_tiles := (puzzle_tiles st)(s := EMPTY),
             g_solution := slot_unset (g_solution st) s\<rparr>
      | EMPTY \<Rightarrow>
          st\<lparr>puzzle_tiles := (puzzle_tiles st)(s := TREASURE),
             g_puzzle := pz\<lparr>treasures := slot_set (treasures pz) s\<rparr>\<rparr>)"

text \<open>The six checks of the generator, in the order of the source.\<close>

definition gen_constraints_hold :: "Puzzle \<Rightarrow> u64 \<Rightarrow> int \<Rightarrow> bool" where
  "gen_constraints_hold pz g s =
     (let invalid_monster = \<not> is_invalid_monster pz g (pos_from_slot s);
          overlap = check_doesnt_overlap pz g;
          dead_ends = check_dead_ends pz g s;
          monsters_ok = check_monsters pz g s;
          wide_space = check_wide_space pz g s;
          treasure = check_treasure_rooms pz g s
      in invalid_monster \<and> overlap \<and> dead_ends \<and> monsters_ok \<and> wide_space \<and> treasure)"

text \<open>
  The puzzle derived from a complete grid: the monsters and treasures found, and the
  wall counts of the rows and columns, each cast to \<open>u8\<close>.
\<close>

definition derive_puzzle :: "Puzzle \<Rightarrow> u64 \<Rightarrow> Puzzle" where
  "derive_puzzle pz g =
     \<lparr>row_wall_counts = map (\<lambda>i. word_of_int (count_walls_in_row g (int i))) [0..<8],
      col_wall_counts = map (\<lambda>i. word_of_int (count_walls_in_col g (int i))) [0..<8],
      monsters = monsters pz, treasures = treasures pz\<rparr>"

text \<open>
  One iteration of the loop. The buffer that the inner call of \<open>solve\<close> fills is a
  local array of 128 entries, never read afterwards; only the count is used.
\<close>

definition gen_body :: "u64 \<Rightarrow> gen_state \<Rightarrow> gen_state" where
  "gen_body max_puzzles st =
     (let s = g_slot st;
          st1 = cycle_tile st
      in if gen_constraints_hold (g_puzzle st1) (g_solution st1) s then
           (if s < 63 then st1\<lparr>g_slot := s + 1\<rparr>
            else
              (let valid_puzzle = derive_puzzle (g_puzzle st1) (g_solution st1);
                   num_valid_puzzle_solutions = fst (solve valid_puzzle (replicate 128 0) 128);
                   gen_puzzle = \<lparr>gp_puzzle = valid_puzzle,
                                 num_solutions = num_valid_puzzle_solutions\<rparr>
               in if puzzle_i st1 < max_puzzles
                  then st1\<lparr>puzzles := (puzzles st1)[unat (puzzle_i st1) := gen_puzzle],
                           puzzle_i := puzzle_i st1 + 1,
                           g_slot := gen_backtrack (puzzle_tiles st1) s\<rparr>
                  else st1\<lparr>returned := True\<rparr>))
         else st1\<lparr>g_slot := gen_backtrack (puzzle_tiles st1) s\<rparr>)"

text \<open>
  The loop of \<open>generate\<close> terminates for the same reason as that of \<open>solve\<close>, with four
  choices per slot: a slot below the current one weighs its number of untried tiles
  times \<open>5 ^ (64 - i)\<close>, and the current slot counts the tile about to be chosen as well.
\<close>

fun next_tile :: "Tile \<Rightarrow> Tile" where
  "next_tile TREASURE = MONSTER"
| "next_tile MONSTER = WALL"
| "next_tile WALL = EMPTY"
| "next_tile EMPTY = TREASURE"

fun tile_rem :: "Tile \<Rightarrow> nat" where
  "tile_rem TREASURE = 3"
| "tile_rem MONSTER = 2"
| "tile_rem WALL = 1"
| "tile_rem EMPTY = 0"

fun tile_weight :: "(int \<Rightarrow> Tile) \<Rightarrow> nat \<Rightarrow> nat" where
  "tile_weight tiles 0 = 0"
| "tile_weight tiles (Suc i) = tile_weight tiles i + tile_rem (tiles (int i)) * 5 ^ (64 - i)"

definition gen_measure :: "gen_state \<Rightarrow> nat" where
  "gen_measure st =
     (if 0 \<le> g_slot st \<and> g_slot st < 64 \<and> \<not> returned st
      then tile_weight (puzzle_tiles st) (nat (g_slot st)) +
           Suc (tile_rem (next_tile (puzzle_tiles st (g_slot st)))) * 5 ^ (64 - nat (g_slot st))
      else 0)"

lemma cycle_tile_tiles:
  "puzzle_tiles (cycle_tile st) =
     (puzzle_tiles st)(g_slot st := next_tile (puzzle_tiles st (g_slot st)))"
  by (cases "puzzle_tiles st (g_slot st)") (simp_all add: cycle_tile_def Let_def)

lemma cycle_tile_fields:
  "g_slot (cycle_tile st) = g_slot st" "returned (cycle_tile st) = returned st"
  "puzzle_i (cycle_tile st) = puzzle_i st" "puzzles (cycle_tile st) = puzzles st"
  by (cases "puzzle_tiles st (g_slot st)"; simp add: cycle_tile_def Let_def)+

lemma tile_weight_cong:
  "(\<And>i. i < k \<Longrightarrow> tiles (int i) = tiles' (int i)) \<Longrightarrow> tile_weight tiles k = tile_weight tiles' k"
  by (induction k) auto

lemma tile_weight_upd: "tile_weight (tiles(int k := t)) k = tile_weight tiles k"
  by (rule tile_weight_cong) simp

lemma gen_backtrack_unfold:
  "gen_backtrack tiles s =
     (if s \<ge> 0 \<and> tiles s = EMPTY then gen_backtrack tiles (s - 1) else s)"
  by (rule gen_backtrack.simps)

lemma gen_backtrack_range:
  "- 1 \<le> s \<Longrightarrow> - 1 \<le> gen_backtrack tiles s \<and> gen_backtrack tiles s \<le> s"
proof (induction tiles s rule: gen_backtrack.induct)
  case (1 tiles s)
  show ?case
  proof (cases "s \<ge> 0 \<and> tiles s = EMPTY")
    case True
    then have "gen_backtrack tiles s = gen_backtrack tiles (s - 1)"
      by (subst gen_backtrack_unfold) simp
    with True 1 show ?thesis by auto
  next
    case False
    then have "gen_backtrack tiles s = s" by (subst gen_backtrack_unfold) auto
    with 1 show ?thesis by simp
  qed
qed

lemma gen_backtrack_tile:
  "0 \<le> gen_backtrack tiles s \<Longrightarrow> tiles (gen_backtrack tiles s) \<noteq> EMPTY"
proof (induction tiles s rule: gen_backtrack.induct)
  case (1 tiles s)
  show ?case
  proof (cases "s \<ge> 0 \<and> tiles s = EMPTY")
    case True
    then have "gen_backtrack tiles s = gen_backtrack tiles (s - 1)"
      by (subst gen_backtrack_unfold) simp
    with True 1 show ?thesis by auto
  next
    case False
    then have "gen_backtrack tiles s = s" by (subst gen_backtrack_unfold) auto
    with 1 False show ?thesis by auto
  qed
qed

lemma gen_backtrack_weight:
  "- 1 \<le> s \<Longrightarrow>
   tile_weight tiles (nat (gen_backtrack tiles s + 1)) = tile_weight tiles (nat (s + 1))"
proof (induction tiles s rule: gen_backtrack.induct)
  case (1 tiles s)
  show ?case
  proof (cases "s \<ge> 0 \<and> tiles s = EMPTY")
    case True
    then have bt: "gen_backtrack tiles s = gen_backtrack tiles (s - 1)"
      by (subst gen_backtrack_unfold) simp
    have n: "nat (s + 1) = Suc (nat s)" "nat (s - 1 + 1) = nat s" "int (nat s) = s"
      using True by auto
    have "tile_weight tiles (nat (gen_backtrack tiles (s - 1) + 1)) =
          tile_weight tiles (nat (s - 1 + 1))"
      using True 1 by auto
    then show ?thesis using True by (simp add: bt n)
  next
    case False
    then have "gen_backtrack tiles s = s" by (subst gen_backtrack_unfold) auto
    then show ?thesis by simp
  qed
qed

lemma tile_head_bound: "Suc (tile_rem (next_tile t)) \<le> 4"
  by (cases t) simp_all

lemma tile_rem_next: "t \<noteq> EMPTY \<Longrightarrow> Suc (tile_rem (next_tile t)) = tile_rem t"
  by (cases t) simp_all

lemma gen_body_decreases:
  assumes "0 \<le> g_slot st" "g_slot st < 64" "\<not> returned st"
  shows "gen_measure (gen_body mx st) < gen_measure st"
proof -
  define s where "s = nat (g_slot st)"
  define t' where "t' = next_tile (puzzle_tiles st (g_slot st))"
  define tiles' where "tiles' = (puzzle_tiles st)(int s := t')"
  define st1 where "st1 = cycle_tile st"
  have s: "g_slot st = int s" "s < 64" using assms by (auto simp: s_def)
  have st1: "puzzle_tiles st1 = tiles'" "g_slot st1 = int s" "\<not> returned st1"
    using assms(3) by (simp_all add: st1_def cycle_tile_tiles cycle_tile_fields tiles'_def t'_def s)
  have pw: "(5::nat) ^ (64 - s) = 5 * 5 ^ (63 - s)"
    using s(2) by (simp add: Suc_diff_le flip: power_Suc)
  have ww: "tile_weight tiles' s = tile_weight (puzzle_tiles st) s"
    unfolding tiles'_def by (rule tile_weight_upd)
  have M: "gen_measure st = tile_weight (puzzle_tiles st) s + Suc (tile_rem t') * 5 ^ (64 - s)"
    using s assms(3) by (simp add: gen_measure_def t'_def)
  have ts: "tiles' (int s) = t'" by (simp add: tiles'_def)
  have W: "tile_weight tiles' (Suc s) < gen_measure st"
    unfolding M by (simp add: ww ts)
  let ?ok = "gen_constraints_hold (g_puzzle st1) (g_solution st1) (int s)"
  consider (advance) "?ok" "s < 63"
    | (full) "?ok" "\<not> s < 63" "\<not> puzzle_i st1 < mx"
    | (retreat) "\<not> (?ok \<and> s < 63)" "\<not> (?ok \<and> \<not> s < 63 \<and> \<not> puzzle_i st1 < mx)"
    by blast
  then show ?thesis
  proof cases
    case advance
    then have body: "gen_body mx st = st1\<lparr>g_slot := int (Suc s)\<rparr>"
      by (simp add: gen_body_def Let_def st1_def [symmetric] s st1 add.commute)
    have sl: "g_slot (gen_body mx st) = int (Suc s)" "puzzle_tiles (gen_body mx st) = tiles'"
      "\<not> returned (gen_body mx st)"
      using st1 by (simp_all add: body)
    have "gen_measure (gen_body mx st) =
        tile_weight tiles' (Suc s) +
        Suc (tile_rem (next_tile (tiles' (int (Suc s))))) * 5 ^ (63 - s)"
      unfolding gen_measure_def sl(1,2) using advance(2) sl(3) by (simp only: nat_int) simp
    also have "\<dots> \<le> tile_weight tiles' (Suc s) + 4 * 5 ^ (63 - s)"
      using tile_head_bound [of "tiles' (int (Suc s))"] by simp
    also have "\<dots> < gen_measure st"
      unfolding M using pw by (simp add: ww ts)
    finally show ?thesis .
  next
    case full
    then have "returned (gen_body mx st)"
      by (simp add: gen_body_def Let_def st1_def [symmetric] s st1)
    then have "gen_measure (gen_body mx st) = 0" by (simp add: gen_measure_def)
    then show ?thesis unfolding M by simp
  next
    case retreat
    define j where "j = gen_backtrack tiles' (int s)"
    have body: "g_slot (gen_body mx st) = j" "puzzle_tiles (gen_body mx st) = tiles'"
      using retreat by (auto simp: gen_body_def Let_def st1_def [symmetric] s st1 j_def)
    have jr: "- 1 \<le> j" "j \<le> int s"
      using gen_backtrack_range [of "int s" tiles'] by (auto simp: j_def)
    show ?thesis
    proof (cases "j < 0")
      case True
      then have "gen_measure (gen_body mx st) = 0" by (simp add: gen_measure_def body)
      then show ?thesis unfolding M by simp
    next
      case False
      then have jt: "tiles' j \<noteq> EMPTY"
        using gen_backtrack_tile [of tiles' "int s"] by (simp add: j_def)
      have "tile_weight tiles' (nat (j + 1)) = tile_weight tiles' (nat (int s + 1))"
        unfolding j_def by (rule gen_backtrack_weight) simp
      then have jw: "tile_weight tiles' (Suc (nat j)) = tile_weight tiles' (Suc s)"
        using False by (simp add: nat_add_distrib)
      have "gen_measure (gen_body mx st) \<le>
          tile_weight tiles' (nat j) + Suc (tile_rem (next_tile (tiles' j))) * 5 ^ (64 - nat j)"
        by (simp add: gen_measure_def body)
      also have "\<dots> = tile_weight tiles' (Suc (nat j))"
        using False jt by (simp add: tile_rem_next)
      also have "\<dots> < gen_measure st" unfolding jw by (rule W)
      finally show ?thesis .
    qed
  qed
qed

function gen_loop :: "u64 \<Rightarrow> gen_state \<Rightarrow> gen_state" where
  "gen_loop max_puzzles st =
     (if 0 \<le> g_slot st \<and> g_slot st < 64 \<and> \<not> returned st
      then gen_loop max_puzzles (gen_body max_puzzles st) else st)"
  by pat_completeness auto
termination
  by (relation "measure (\<lambda>(max_puzzles, st). gen_measure st)")
     (auto simp: gen_body_decreases)

declare gen_loop.simps [simp del]

definition gen_init :: "GeneratedPuzzle list \<Rightarrow> gen_state" where
  "gen_init buf =
     \<lparr>puzzle_tiles = (\<lambda>i. EMPTY), g_puzzle = zero_puzzle, g_solution = 0, g_slot = 0,
      puzzle_i = 0, puzzles = buf, returned = False\<rparr>"

text \<open>
  \<open>generate\<close> takes the caller's buffer and its length, and returns the number of
  puzzles found together with the buffer.
\<close>

definition generate :: "GeneratedPuzzle list \<Rightarrow> u64 \<Rightarrow> u64 \<times> GeneratedPuzzle list" where
  "generate buf max_puzzles =
     (let st = gen_loop max_puzzles (gen_init buf) in (puzzle_i st, puzzles st))"

section \<open>Steps of the generator\<close>

text \<open>The state at the head of the loop after \<open>n\<close> iterations, or at its end if earlier.\<close>

fun gen_steps :: "u64 \<Rightarrow> nat \<Rightarrow> gen_state \<Rightarrow> gen_state" where
  "gen_steps mx 0 st = st"
| "gen_steps mx (Suc n) st =
     (if 0 \<le> g_slot st \<and> g_slot st < 64 \<and> \<not> returned st
      then gen_steps mx n (gen_body mx st) else st)"

lemma gen_steps_numeral:
  "gen_steps mx (numeral k) st =
     (if 0 \<le> g_slot st \<and> g_slot st < 64 \<and> \<not> returned st
      then gen_steps mx (pred_numeral k) (gen_body mx st) else st)"
  by (simp add: numeral_eq_Suc)



lemmas gen_eval = gen_body_def cycle_tile_def gen_constraints_hold_def gen_init_def
  zero_puzzle_def gen_backtrack.simps

text \<open>
  The first eleven iterations: a treasure at slot 0, slots 1 and 2 left empty after
  the three other tiles are refused, and at slot 3 the treasure and the monster refused.
\<close>

definition after_eleven :: "GeneratedPuzzle list \<Rightarrow> gen_state" where
  "after_eleven buf =
     \<lparr>puzzle_tiles = (\<lambda>i. EMPTY)(0 := TREASURE, 1 := EMPTY, 2 := EMPTY, 3 := MONSTER),
      g_puzzle = \<lparr>row_wall_counts = replicate 8 0, col_wall_counts = replicate 8 0,
                  monsters = 1152921504606846976, treasures = 9223372036854775808\<rparr>,
      g_solution = 0, g_slot = 3, puzzle_i = 0, puzzles = buf, returned = False\<rparr>"

lemma first_eleven_steps: "gen_steps mx 11 (gen_init buf) = after_eleven buf"
  by (simp add: gen_steps_numeral gen_eval constraint_eval grid_eval after_eleven_def)

section \<open>Claims about the generator's checks and capacity\<close>

lemma after_eleven_cycle:
  "cycle_tile (after_eleven buf) =
     (after_eleven buf)
       \<lparr>puzzle_tiles := (puzzle_tiles (after_eleven buf))(3 := WALL),
        g_puzzle := (g_puzzle (after_eleven buf))\<lparr>monsters := 0\<rparr>,
        g_solution := 1152921504606846976\<rparr>"
  by (simp add: cycle_tile_def after_eleven_def grid_eval)

lemma after_eleven_wall_accepted:
  "gen_constraints_hold (g_puzzle (cycle_tile (after_eleven buf)))
     (g_solution (cycle_tile (after_eleven buf))) 3"
  by (simp add: after_eleven_cycle)
     (simp add: after_eleven_def gen_constraints_hold_def constraint_eval grid_eval)

lemma after_eleven_row_count:
  "\<not> check_row_count (g_puzzle (cycle_tile (after_eleven buf)))
       (g_solution (cycle_tile (after_eleven buf))) 3"
  by (simp add: after_eleven_cycle)
     (simp add: after_eleven_def constraint_eval grid_eval)

text \<open>
  C3, as the code has it. The generator does not evaluate the row-count and
  column-count predicates. After eleven iterations of the search from its initial
  state the loop is at slot 3; the twelfth puts a wall there, which \<open>check_row_count\<close>
  refuses against the puzzle's row target 0, and the search still moves on to slot 4.
\<close>

theorem generate_row_count_counterexample:
  "(let st = gen_steps 8 11 (gen_init []); st1 = cycle_tile st
    in g_slot st = 3 \<and> \<not> returned st \<and>
       \<not> check_row_count (g_puzzle st1) (g_solution st1) (g_slot st) \<and>
       \<not> constraints_hold (g_puzzle st1) (g_solution st1) (g_slot st) \<and>
       g_slot (gen_body 8 st) = 4)"
proof -
  have "g_slot (gen_body 8 (after_eleven [])) = 4"
    using after_eleven_wall_accepted [of "[]"]
    by (simp add: gen_body_def Let_def) (simp add: after_eleven_cycle, simp add: after_eleven_def)
  moreover have "g_slot (after_eleven []) = 3" "\<not> returned (after_eleven [])"
    by (simp_all add: after_eleven_def)
  ultimately show ?thesis
    using after_eleven_row_count [of "[]"]
    by (simp add: first_eleven_steps Let_def constraints_hold_def)
qed

text \<open>
  C3, amended. After every cell assignment \<open>generate\<close> evaluates five predicates of
  the constraint engine (no overlap, dead ends, monsters, wide space, treasure rooms)
  and the monster validity of the toggled cell itself. If any of the six fails the
  iteration only backtracks; if all hold below slot 63 the search moves to the next
  slot. The row and column targets of the puzzle are not read by these checks.
\<close>

theorem generate_checks:
  "(let st1 = cycle_tile st; s = g_slot st; pz = g_puzzle st1; g = g_solution st1
    in gen_constraints_hold pz g s =
         (\<not> is_invalid_monster pz g (pos_from_slot s) \<and> check_doesnt_overlap pz g \<and>
          check_dead_ends pz g s \<and> check_monsters pz g s \<and> check_wide_space pz g s \<and>
          check_treasure_rooms pz g s) \<and>
       gen_constraints_hold (pz\<lparr>row_wall_counts := rs, col_wall_counts := cs\<rparr>) g s =
         gen_constraints_hold pz g s \<and>
       gen_body mx st =
         (if gen_constraints_hold pz g s
          then (if s < 63 then st1\<lparr>g_slot := s + 1\<rparr> else gen_body mx st)
          else st1\<lparr>g_slot := gen_backtrack (puzzle_tiles st1) s\<rparr>))"
proof -
  have room: "is_invalid_treasure_room (pz\<lparr>row_wall_counts := rs, col_wall_counts := cs\<rparr>) g tr c s =
      is_invalid_treasure_room pz g tr c s" for pz g tr c s
    by (simp add: is_invalid_treasure_room_def)
  have tr: "is_invalid_treasure (pz\<lparr>row_wall_counts := rs, col_wall_counts := cs\<rparr>) g t s =
      is_invalid_treasure pz g t s" for pz g t s
    by (simp add: is_invalid_treasure_def room)
  have trs: "check_treasure_rooms (pz\<lparr>row_wall_counts := rs, col_wall_counts := cs\<rparr>) g s =
      check_treasure_rooms pz g s" for pz g s
    by (simp add: check_treasure_rooms_def tr)
  have mon: "is_invalid_monster (pz\<lparr>row_wall_counts := rs, col_wall_counts := cs\<rparr>) g p =
      is_invalid_monster pz g p" for pz g p
    by (simp add: is_invalid_monster_def)
  have dead: "is_dead_end (pz\<lparr>row_wall_counts := rs, col_wall_counts := cs\<rparr>) g p =
      is_dead_end pz g p" for pz g p
    by (simp add: is_dead_end_def)
  have a: "gen_constraints_hold (pz\<lparr>row_wall_counts := rs, col_wall_counts := cs\<rparr>) g s =
      gen_constraints_hold pz g s" for pz g s
    by (simp add: gen_constraints_hold_def check_doesnt_overlap_def check_dead_ends_def
          check_monsters_def check_wide_space_def trs mon dead)
  show ?thesis
    unfolding Let_def a
    by (simp add: gen_constraints_hold_def gen_body_def Let_def)
qed

theorem generate_checks_witness:
  "g_slot (gen_steps 8 11 (gen_init [])) = 3 \<and>
   g_slot (gen_body 8 (gen_steps 8 11 (gen_init []))) = 4 \<and>
   g_solution (gen_body 8 (gen_steps 8 11 (gen_init []))) = 1152921504606846976"
proof -
  have "gen_body 8 (after_eleven []) = (cycle_tile (after_eleven []))\<lparr>g_slot := 3 + 1\<rparr>"
    using generate_checks [of "after_eleven []" rs cs 8] after_eleven_wall_accepted [of "[]"]
    by (simp add: Let_def) (simp add: after_eleven_def)
  then show ?thesis
    by (simp add: first_eleven_steps after_eleven_cycle) (simp add: after_eleven_def)
qed







section \<open>The tiles and the three grids of the generator\<close>

text \<open>
  The tag of every slot says which of the three grids holds the slot's bit: the walls,
  the monsters or the treasures, and none of them for an empty tile.
\<close>

definition tiles_agree :: "gen_state \<Rightarrow> bool" where
  "tiles_agree st =
     (\<forall>i \<in> {0..63}.
        (slot_is_set (g_solution st) i \<noteq> 0) = (puzzle_tiles st i = WALL) \<and>
        (slot_is_set (monsters (g_puzzle st)) i \<noteq> 0) = (puzzle_tiles st i = MONSTER) \<and>
        (slot_is_set (treasures (g_puzzle st)) i \<noteq> 0) = (puzzle_tiles st i = TREASURE))"

definition grids_disjoint :: "gen_state \<Rightarrow> bool" where
  "grids_disjoint st =
     (g_solution st AND monsters (g_puzzle st) = 0 \<and>
      g_solution st AND treasures (g_puzzle st) = 0 \<and>
      monsters (g_puzzle st) AND treasures (g_puzzle st) = 0)"

lemma slot_is_set_after_set:
  "(slot_is_set (slot_set m s) i \<noteq> 0) = (slot_is_set m i \<noteq> 0 \<or> (i = s \<and> 0 \<le> s \<and> s < 64))"
  by (auto simp: slot_is_set_iff bit_slot_set)

lemma slot_is_set_after_unset:
  "(slot_is_set (slot_unset m s) i \<noteq> 0) = (slot_is_set m i \<noteq> 0 \<and> i \<noteq> s)"
  by (auto simp: slot_is_set_iff bit_slot_unset)

lemma cycle_tile_agree:
  assumes "tiles_agree st" "0 \<le> g_slot st" "g_slot st < 64"
  shows "tiles_agree (cycle_tile st)"
proof (cases "puzzle_tiles st (g_slot st)")
  case EMPTY
  with assms show ?thesis
    by (auto simp: tiles_agree_def cycle_tile_def Let_def slot_is_set_after_set)
next
  case WALL
  with assms show ?thesis
    by (auto simp: tiles_agree_def cycle_tile_def Let_def slot_is_set_after_unset)
next
  case MONSTER
  with assms show ?thesis
    by (auto simp: tiles_agree_def cycle_tile_def Let_def slot_is_set_after_set
          slot_is_set_after_unset)
next
  case TREASURE
  with assms show ?thesis
    by (auto simp: tiles_agree_def cycle_tile_def Let_def slot_is_set_after_set
          slot_is_set_after_unset)
qed

lemma gen_body_grids:
  "puzzle_tiles (gen_body mx st) = puzzle_tiles (cycle_tile st)"
  "g_solution (gen_body mx st) = g_solution (cycle_tile st)"
  "monsters (g_puzzle (gen_body mx st)) = monsters (g_puzzle (cycle_tile st))"
  "treasures (g_puzzle (gen_body mx st)) = treasures (g_puzzle (cycle_tile st))"
  by (simp_all add: gen_body_def Let_def)

lemma gen_body_agree:
  assumes "tiles_agree st" "0 \<le> g_slot st" "g_slot st < 64"
  shows "tiles_agree (gen_body mx st)"
  using cycle_tile_agree [OF assms] by (simp add: tiles_agree_def gen_body_grids)

lemma gen_steps_agree:
  "tiles_agree st \<Longrightarrow> tiles_agree (gen_steps mx n st)"
  by (induction n arbitrary: st) (simp_all add: gen_body_agree)

lemma tiles_agree_init: "tiles_agree (gen_init buf)"
  by (simp add: tiles_agree_def gen_init_def zero_puzzle_def slot_is_set_def)

lemma agree_disjoint:
  assumes "tiles_agree st"
  shows "grids_disjoint st"
proof -
  have tag: "(bit (g_solution st) n \<longrightarrow> puzzle_tiles st (63 - int n) = WALL) \<and>
      (bit (monsters (g_puzzle st)) n \<longrightarrow> puzzle_tiles st (63 - int n) = MONSTER) \<and>
      (bit (treasures (g_puzzle st)) n \<longrightarrow> puzzle_tiles st (63 - int n) = TREASURE)" for n
  proof (cases "n < 64")
    case True
    then have i: "63 - int n \<in> {0..63}" and n: "nat (63 - (63 - int n)) = n"
      and r: "0 \<le> 63 - int n" "63 - int n < 64" by auto
    from assms i have
      "(slot_is_set (g_solution st) (63 - int n) \<noteq> 0) = (puzzle_tiles st (63 - int n) = WALL)"
      "(slot_is_set (monsters (g_puzzle st)) (63 - int n) \<noteq> 0) =
         (puzzle_tiles st (63 - int n) = MONSTER)"
      "(slot_is_set (treasures (g_puzzle st)) (63 - int n) \<noteq> 0) =
         (puzzle_tiles st (63 - int n) = TREASURE)"
      unfolding tiles_agree_def by blast+
    then show ?thesis using r by (simp add: slot_is_set_iff n)
  next
    case False
    then have "\<not> bit w n" for w :: u64 by (auto dest: bit_imp_le_length)
    then show ?thesis by simp
  qed
  have "a AND b = 0" if "\<And>n. \<not> (bit a n \<and> bit b n)" for a b :: u64
    using that by (intro bit_eqI) (simp add: bit_and_iff)
  then show ?thesis
    unfolding grids_disjoint_def using tag by (metis Tile.distinct(7,9,11))
qed

text \<open>
  C10. At the head of every iteration of the search of \<open>generate\<close>, and after the
  tile of the current slot has been cycled, every slot's bit is set in exactly the grid
  its tag names (in none for an empty tile), and the wall grid, the monster grid and
  the treasure grid are pairwise disjoint.
\<close>

theorem generate_tiles_invariant:
  "(let st = gen_steps mx n (gen_init buf)
    in tiles_agree st \<and> grids_disjoint st \<and>
       (0 \<le> g_slot st \<and> g_slot st < 64
        \<longrightarrow> tiles_agree (cycle_tile st) \<and> grids_disjoint (cycle_tile st)))"
proof -
  have "tiles_agree (gen_steps mx n (gen_init buf))"
    by (rule gen_steps_agree) (rule tiles_agree_init)
  then show ?thesis
    by (simp add: Let_def agree_disjoint cycle_tile_agree)
qed

theorem generate_tiles_invariant_witness:
  "(let st = gen_steps 8 11 (gen_init [])
    in g_slot st = 3 \<and> puzzle_tiles st 0 = TREASURE \<and>
       tiles_agree st \<and> grids_disjoint st \<and>
       tiles_agree (cycle_tile st) \<and> grids_disjoint (cycle_tile st) \<and>
       puzzle_tiles (cycle_tile st) 3 = WALL)"
proof -
  have "g_slot (after_eleven []) = 3" "puzzle_tiles (after_eleven []) 0 = TREASURE"
    by (simp_all add: after_eleven_def)
  moreover have "puzzle_tiles (cycle_tile (after_eleven [])) 3 = WALL"
    by (simp add: after_eleven_cycle)
  ultimately show ?thesis
    using generate_tiles_invariant [of 8 11 "[]"]
    by (simp add: Let_def first_eleven_steps)
qed

section \<open>Grids cut off after a slot\<close>

text \<open>
  While the solver is at slot \<open>t\<close> its grid has no wall beyond \<open>t\<close>.
  \<open>prefix_grid g t\<close> is the grid \<open>g\<close> cut off after slot \<open>t\<close>, and \<open>within t m\<close>
  says that the mask \<open>m\<close> selects slots up to \<open>t\<close> only, so that a constraint reading
  the grid through \<open>m\<close> cannot tell \<open>g\<close> from its prefix.
\<close>

definition prefix_grid :: "u64 \<Rightarrow> int \<Rightarrow> u64" where
  "prefix_grid g t = g AND NOT (mask (nat (63 - t)))"

definition within :: "int \<Rightarrow> u64 \<Rightarrow> bool" where
  "within t m = (\<forall>n. bit m n \<longrightarrow> 63 - t \<le> int n)"

lemma bit_prefix_grid: "bit (prefix_grid g t) n = (bit g n \<and> 63 - t \<le> int n)"
  by (auto simp: prefix_grid_def bit_and_iff bit_not_iff bit_mask_iff dest: bit_imp_le_length)

lemma prefix_grid_63: "prefix_grid g 63 = g"
  by (simp add: prefix_grid_def)

lemma within_and: "within t m \<Longrightarrow> m AND prefix_grid g t = m AND g"
  by (rule bit_eqI) (auto simp: within_def bit_and_iff bit_prefix_grid)

lemma within_zero: "within t 0"
  by (simp add: within_def)

lemma within_mono: "within t m \<Longrightarrow> t \<le> u \<Longrightarrow> within u m"
  by (fastforce simp: within_def)

lemma pos_bit_slot_of: "in_grid p \<Longrightarrow> int (pos_bit p) = 63 - slot_of p"
  by (auto simp: in_grid_def pos_bit_def slot_of_def)

lemma within_pos_set:
  "within t (pos_set m p) = (within t m \<and> (in_grid p \<longrightarrow> slot_of p \<le> t))"
  by (auto simp: within_def bit_pos_set pos_bit_slot_of)

lemma pos_from_slot_nonneg:
  "0 \<le> t \<Longrightarrow> pos_from_slot t = \<lparr>row = t div 8, col = t mod 8\<rparr>"
  by (simp add: pos_from_slot_def signed_divide_int_def signed_modulo_int_def sgn_if)

lemma pos_from_slot_of: "in_grid x \<Longrightarrow> pos_from_slot (slot_of x) = x"
  by (simp add: pos_from_slot_nonneg in_grid_def slot_of_def)

lemma pos_from_slot_cases:
  assumes "0 \<le> t" "t < 64"
  obtains r c where "pos_from_slot t = \<lparr>row = r, col = c\<rparr>" "0 \<le> r" "r < 8" "0 \<le> c" "c < 8"
    "t = r * 8 + c"
proof
  show "pos_from_slot t = \<lparr>row = t div 8, col = t mod 8\<rparr>"
    using assms by (simp add: pos_from_slot_nonneg)
  show "0 \<le> t div 8" "t div 8 < 8" "0 \<le> t mod 8" "t mod 8 < 8" "t = t div 8 * 8 + t mod 8"
    using assms by presburger+
qed

lemma pos_from_slot_in_grid:
  assumes "0 \<le> t" "t < 64"
  shows "in_grid (pos_from_slot t) \<and> slot_of (pos_from_slot t) = t"
proof -
  from assms obtain r c where "pos_from_slot t = \<lparr>row = r, col = c\<rparr>"
    "0 \<le> r" "r < 8" "0 \<le> c" "c < 8" "t = r * 8 + c"
    by (rule pos_from_slot_cases)
  then show ?thesis by (simp add: in_grid_def slot_of_def)
qed

lemma within_cell: "in_grid x \<Longrightarrow> slot_of x \<le> t \<Longrightarrow> within t (pos_set 0 x)"
  by (simp add: within_pos_set within_zero)

lemma within_border:
  assumes "in_grid x" "slot_of x \<le> t"
    "row x < 7 \<longrightarrow> slot_of x + 8 \<le> t" "col x < 7 \<longrightarrow> slot_of x + 1 \<le> t"
  shows "within t (border_of x)"
  using assms
  by (auto simp: border_of_def within_pos_set within_zero in_grid_def slot_of_def)

lemma within_wide_space:
  assumes "0 \<le> t" "t < 64"
  shows "within t (wide_space_mask (pos_from_slot t))"
proof -
  from assms obtain r c where "pos_from_slot t = \<lparr>row = r, col = c\<rparr>"
    "0 \<le> r" "r < 8" "0 \<le> c" "c < 8" "t = r * 8 + c"
    by (rule pos_from_slot_cases)
  then show ?thesis
    by (auto simp: wide_space_mask_def within_pos_set within_zero in_grid_def slot_of_def)
qed

lemma row_mask_bits:
  assumes "0 \<le> r" "r < 8"
  shows "within (8 * r + 7) (drop_bit (nat (r * 8)) (0xFF00000000000000 :: u64))"
proof -
  have m: "(0xFF00000000000000 :: u64) = NOT (mask 56)"
    by (simp add: mask_eq_exp_minus_1)
  show ?thesis
    unfolding within_def m using assms
    by (auto simp: bit_drop_bit_eq bit_not_iff bit_mask_iff)
qed

lemma col_mask_bits:
  assumes "0 \<le> c" "c < 8"
  shows "within (56 + c) (drop_bit (nat c) (0x8080808080808080 :: u64))"
proof -
  define low :: u64 where "low = 0x0101010101010101"
  have m: "(0x8080808080808080 :: u64) = push_bit 7 low"
    by (simp add: low_def)
  show ?thesis
    unfolding within_def m using assms
    by (auto simp: bit_drop_bit_eq bit_push_bit_iff)
qed

lemma count_walls_in_row_prefix:
  "0 \<le> r \<Longrightarrow> r < 8 \<Longrightarrow> 8 * r + 7 \<le> t \<Longrightarrow>
   count_walls_in_row (prefix_grid g t) r = count_walls_in_row g r"
  using within_and [OF within_mono [OF row_mask_bits]]
  by (simp add: count_walls_in_row_def)

lemma count_walls_in_col_prefix:
  "0 \<le> c \<Longrightarrow> c < 8 \<Longrightarrow> 56 + c \<le> t \<Longrightarrow>
   count_walls_in_col (prefix_grid g t) c = count_walls_in_col g c"
  using within_and [OF within_mono [OF col_mask_bits]]
  by (simp add: count_walls_in_col_def)

lemma is_dead_end_prefix:
  "within t (pos_set 0 x) \<Longrightarrow> within t (border_of x) \<Longrightarrow>
   is_dead_end pz (prefix_grid g t) x = is_dead_end pz g x"
  by (simp add: is_dead_end_def within_and)

lemma is_invalid_monster_prefix:
  "within t (border_of x) \<Longrightarrow>
   is_invalid_monster pz (prefix_grid g t) x = is_invalid_monster pz g x"
  by (simp add: is_invalid_monster_def within_and)

lemma check_wide_space_prefix:
  "0 \<le> t \<Longrightarrow> t < 64 \<Longrightarrow> check_wide_space pz (prefix_grid g t) t = check_wide_space pz g t"
  by (simp add: check_wide_space_def within_and within_wide_space)

section \<open>From the constraints along the search to the constraints on the grid\<close>

text \<open>
  \<open>path_ok pz g\<close>: every prefix of \<open>g\<close> passes the constraints at its last slot, which
  is what the solver has checked when it reaches \<open>g\<close>. \<open>valid_grid pz g\<close>: the complete
  grid passes the constraints at every slot.
\<close>

definition path_ok :: "Puzzle \<Rightarrow> u64 \<Rightarrow> bool" where
  "path_ok pz g = (\<forall>t \<in> {0..63}. constraints_hold pz (prefix_grid g t) t)"

definition valid_grid :: "Puzzle \<Rightarrow> u64 \<Rightarrow> bool" where
  "valid_grid pz g = (\<forall>t \<in> {0..63}. constraints_hold pz g t)"

text \<open>The slot at which the search has decided a cell and all its neighbours.\<close>

definition decided_at :: "Pos \<Rightarrow> int" where
  "decided_at x =
     (if row x < 7 then slot_of x + 8 else if col x < 7 then slot_of x + 1 else 63)"

lemma decided_at_range: "in_grid x \<Longrightarrow> 0 \<le> decided_at x \<and> decided_at x < 64"
  by (auto simp: decided_at_def in_grid_def slot_of_def)

lemma decided_at_within:
  assumes "in_grid x"
  shows "within (decided_at x) (pos_set 0 x)" "within (decided_at x) (border_of x)"
proof -
  show "within (decided_at x) (pos_set 0 x)"
    using assms by (intro within_cell) (auto simp: decided_at_def in_grid_def slot_of_def)
  show "within (decided_at x) (border_of x)"
    using assms by (intro within_border) (auto simp: decided_at_def in_grid_def slot_of_def)
qed

lemma pos_eq: "(x :: Pos) = \<lparr>row = row x, col = col x\<rparr>"
  by simp

text \<open>
  At slot \<open>decided_at x\<close> the dead-end check and the monster check both look at \<open>x\<close>:
  as the cell above, as the cell to the left in the last row, or as the last cell.
\<close>

lemma decided_at_checks:
  assumes "in_grid x"
  shows "check_dead_ends pz g (decided_at x) \<Longrightarrow> \<not> is_dead_end pz g x"
    and "check_monsters pz g (decided_at x) \<Longrightarrow> \<not> is_invalid_monster pz g x"
proof -
  define u where "u = decided_at x"
  have u: "0 \<le> u" using assms decided_at_range [of x] by (simp add: u_def)
  have "row x < 7 \<or> (row x = 7 \<and> col x < 7) \<or> (row x = 7 \<and> col x = 7)"
    using assms unfolding in_grid_def by linarith
  then consider (a) "row x < 7" | (b) "row x = 7" "col x < 7" | (c) "row x = 7" "col x = 7"
    by blast
  then have pos: "(row x < 7 \<and> \<lparr>row = row (pos_from_slot u) - 1, col = col (pos_from_slot u)\<rparr> = x) \<or>
     (row (pos_from_slot u) = 7 \<and> col x < 7 \<and>
      \<lparr>row = row (pos_from_slot u), col = col (pos_from_slot u) - 1\<rparr> = x) \<or>
     (row (pos_from_slot u) = 7 \<and> col (pos_from_slot u) = 7 \<and> pos_from_slot u = x)"
  proof cases
    case a
    then have "u = (row x + 1) * 8 + col x" by (simp add: u_def decided_at_def slot_of_def)
    moreover have "((row x + 1) * 8 + col x) div 8 = row x + 1"
      "((row x + 1) * 8 + col x) mod 8 = col x"
      using assms unfolding in_grid_def by presburger+
    ultimately have "pos_from_slot u = \<lparr>row = row x + 1, col = col x\<rparr>"
      using u by (simp only: pos_from_slot_nonneg)
    with a show ?thesis by simp
  next
    case b
    then have "u = 56 + (col x + 1)" by (simp add: u_def decided_at_def slot_of_def)
    moreover have "(56 + (col x + 1)) div 8 = 7" "(56 + (col x + 1)) mod 8 = col x + 1"
      using assms b unfolding in_grid_def by presburger+
    ultimately have "pos_from_slot u = \<lparr>row = 7, col = col x + 1\<rparr>"
      using u by (simp only: pos_from_slot_nonneg)
    with b show ?thesis by simp
  next
    case c
    then have "u = 63" by (simp add: u_def decided_at_def)
    then have "pos_from_slot u = \<lparr>row = 7, col = 7\<rparr>"
      by (simp add: pos_from_slot_nonneg)
    with c show ?thesis by simp
  qed
  show "check_dead_ends pz g (decided_at x) \<Longrightarrow> \<not> is_dead_end pz g x"
    using pos unfolding u_def [symmetric] check_dead_ends_def Let_def
    by (auto split: if_splits)
  show "check_monsters pz g (decided_at x) \<Longrightarrow> \<not> is_invalid_monster pz g x"
    using pos unfolding u_def [symmetric] check_monsters_def Let_def
    by (auto split: if_splits)
qed

lemma path_no_dead_end:
  assumes "path_ok pz g"
  shows "\<not> is_dead_end pz g x"
proof (cases "in_grid x")
  case True
  then have "decided_at x \<in> {0..63}" using decided_at_range [of x] by simp
  with assms have "constraints_hold pz (prefix_grid g (decided_at x)) (decided_at x)"
    unfolding path_ok_def by blast
  then have "check_dead_ends pz (prefix_grid g (decided_at x)) (decided_at x)"
    by (simp add: constraints_hold_def)
  then have "\<not> is_dead_end pz (prefix_grid g (decided_at x)) x"
    by (rule decided_at_checks(1) [OF True])
  then show ?thesis
    using decided_at_within [OF True] by (simp add: is_dead_end_prefix)
next
  case False
  then show ?thesis by (auto simp: is_dead_end_def in_grid_def)
qed

lemma path_no_invalid_monster:
  assumes "path_ok pz g"
  shows "\<not> is_invalid_monster pz g x"
proof (cases "in_grid x")
  case True
  then have "decided_at x \<in> {0..63}" using decided_at_range [of x] by simp
  with assms have "constraints_hold pz (prefix_grid g (decided_at x)) (decided_at x)"
    unfolding path_ok_def by blast
  then have "check_monsters pz (prefix_grid g (decided_at x)) (decided_at x)"
    by (simp add: constraints_hold_def)
  then have "\<not> is_invalid_monster pz (prefix_grid g (decided_at x)) x"
    by (rule decided_at_checks(2) [OF True])
  then show ?thesis
    using decided_at_within [OF True] by (simp add: is_invalid_monster_prefix)
next
  case False
  then show ?thesis by (auto simp: is_invalid_monster_def in_grid_def)
qed

lemma path_row_count:
  assumes "path_ok pz g" "0 \<le> r" "r < 8"
  shows "count_walls_in_row g r = uint (row_wall_counts pz ! nat r)"
proof -
  have "(r * 8 + 7) div 8 = r" "(r * 8 + 7) mod 8 = 7"
    using assms(2,3) by presburger+
  then have p: "pos_from_slot (r * 8 + 7) = \<lparr>row = r, col = 7\<rparr>"
    using assms(2) by (simp only: pos_from_slot_nonneg)
  have "r * 8 + 7 \<in> {0..63}" using assms by simp
  with assms(1) have "constraints_hold pz (prefix_grid g (r * 8 + 7)) (r * 8 + 7)"
    unfolding path_ok_def by blast
  then have "check_row_count pz (prefix_grid g (r * 8 + 7)) (r * 8 + 7)"
    by (simp add: constraints_hold_def)
  then have "count_walls_in_row (prefix_grid g (r * 8 + 7)) r = uint (row_wall_counts pz ! nat r)"
    by (simp add: check_row_count_def p Let_def split: if_splits)
  then show ?thesis using assms by (simp add: count_walls_in_row_prefix)
qed

lemma path_col_count:
  assumes "path_ok pz g" "0 \<le> c" "c < 8"
  shows "count_walls_in_col g c = uint (col_wall_counts pz ! nat c)"
proof -
  have "(56 + c) div 8 = 7" "(56 + c) mod 8 = c"
    using assms(2,3) by presburger+
  then have p: "pos_from_slot (56 + c) = \<lparr>row = 7, col = c\<rparr>"
    using assms(2) by (simp only: pos_from_slot_nonneg)
  have "56 + c \<in> {0..63}" using assms by simp
  with assms(1) have "constraints_hold pz (prefix_grid g (56 + c)) (56 + c)"
    unfolding path_ok_def by blast
  then have "check_col_count pz (prefix_grid g (56 + c)) (56 + c)"
    by (simp add: constraints_hold_def)
  then have "count_walls_in_col (prefix_grid g (56 + c)) c = uint (col_wall_counts pz ! nat c)"
    by (simp add: check_col_count_def p Let_def split: if_splits)
  then show ?thesis using assms by (simp add: count_walls_in_col_prefix)
qed

text \<open>
  A room that is invalid at some slot of a grid is invalid at slot 63 of the same grid:
  the count at slot 63 is the strict one.
\<close>

lemma room_rule:
  "is_invalid_treasure_room pz g tr c t =
     (room_broken pz g tr c \<or>
      (if strict_check c t
       then count_set_bits (walls_mask_of c AND g) \<noteq> count_set_bits (walls_mask_of c) - 1
       else count_set_bits (walls_mask_of c AND g) = count_set_bits (walls_mask_of c)))"
  by (auto simp: is_invalid_treasure_room_def room_broken_def strict_check_def Let_def)

lemma strict_check_63: "strict_check c 63"
  by (simp add: strict_check_def pos_from_slot_nonneg)

lemma room_invalid_at_end:
  "is_invalid_treasure_room pz g tr c t \<Longrightarrow> is_invalid_treasure_room pz g tr c 63"
  unfolding room_rule by (cases "strict_check c t") (auto simp: strict_check_63)

lemma is_invalid_treasure_iff:
  "is_invalid_treasure pz g tr t =
     (\<forall>r \<in> {row tr - 1, row tr, row tr + 1}. \<forall>c \<in> {col tr - 1, col tr, col tr + 1}.
        is_invalid_treasure_room pz g tr \<lparr>row = r, col = c\<rparr> t)"
  by (auto simp: is_invalid_treasure_def)

lemma treasure_invalid_at_end:
  "is_invalid_treasure pz g tr t \<Longrightarrow> is_invalid_treasure pz g tr 63"
  unfolding is_invalid_treasure_iff using room_invalid_at_end by blast

lemma check_treasure_rooms_iff:
  "check_treasure_rooms pz g t =
     (treasures pz = 0 \<or>
      (\<forall>r \<in> set board_range. \<forall>c \<in> set board_range.
         pos_is_set (treasures pz) \<lparr>row = r, col = c\<rparr> \<noteq> 0 \<longrightarrow>
         \<not> is_invalid_treasure pz g \<lparr>row = r, col = c\<rparr> t))"
proof -
  have "(if a then (if b then False else True) else True) = (a \<longrightarrow> \<not> b)" for a b
    by simp
  then show ?thesis
    unfolding check_treasure_rooms_def Let_def list_all_iff by simp
qed

lemma treasure_rooms_from_end:
  assumes "check_treasure_rooms pz g 63"
  shows "check_treasure_rooms pz g t"
proof (cases "treasures pz = 0")
  case True
  then show ?thesis by (simp add: check_treasure_rooms_iff)
next
  case False
  with assms have "\<forall>r \<in> set board_range. \<forall>c \<in> set board_range.
         pos_is_set (treasures pz) \<lparr>row = r, col = c\<rparr> \<noteq> 0 \<longrightarrow>
         \<not> is_invalid_treasure pz g \<lparr>row = r, col = c\<rparr> 63"
    by (simp add: check_treasure_rooms_iff)
  then have "\<forall>r \<in> set board_range. \<forall>c \<in> set board_range.
         pos_is_set (treasures pz) \<lparr>row = r, col = c\<rparr> \<noteq> 0 \<longrightarrow>
         \<not> is_invalid_treasure pz g \<lparr>row = r, col = c\<rparr> t"
    using treasure_invalid_at_end by blast
  then show ?thesis by (simp add: check_treasure_rooms_iff)
qed

lemma valid_from_path:
  assumes "path_ok pz g"
  shows "valid_grid pz g"
proof -
  have "(63 :: int) \<in> {0..63}" by simp
  with assms have "constraints_hold pz (prefix_grid g 63) 63"
    unfolding path_ok_def by blast
  then have fin: "constraints_hold pz g 63" by (simp add: prefix_grid_63)
  have "constraints_hold pz g t" if t: "0 \<le> t" "t < 64" for t
  proof -
    from t obtain r c where p: "pos_from_slot t = \<lparr>row = r, col = c\<rparr>"
      and rc: "0 \<le> r" "r < 8" "0 \<le> c" "c < 8" "t = r * 8 + c"
      by (rule pos_from_slot_cases)
    have 1: "check_doesnt_overlap pz g" using fin by (simp add: constraints_hold_def)
    have 2: "check_row_count pz g t"
      using path_row_count [OF assms rc(1,2)] by (simp add: check_row_count_def p Let_def)
    have 3: "check_col_count pz g t"
      using path_col_count [OF assms rc(3,4)] by (simp add: check_col_count_def p Let_def)
    have 4: "check_dead_ends pz g t"
      by (simp add: check_dead_ends_def Let_def path_no_dead_end [OF assms])
    have 5: "check_monsters pz g t"
      by (simp add: check_monsters_def Let_def path_no_invalid_monster [OF assms])
    have "t \<in> {0..63}" using t by simp
    with assms have "constraints_hold pz (prefix_grid g t) t"
      unfolding path_ok_def by blast
    then have "check_wide_space pz (prefix_grid g t) t"
      by (simp add: constraints_hold_def)
    then have 6: "check_wide_space pz g t" using t by (simp add: check_wide_space_prefix)
    have "check_treasure_rooms pz g 63" using fin by (simp add: constraints_hold_def)
    then have 7: "check_treasure_rooms pz g t" by (rule treasure_rooms_from_end)
    show ?thesis using 1 2 3 4 5 6 7 by (simp add: constraints_hold_def)
  qed
  then show ?thesis by (simp add: valid_grid_def)
qed

section \<open>What the solver has checked when it records a grid\<close>

lemma bit_toggle_other:
  "n \<noteq> nat (63 - s) \<Longrightarrow> bit (toggle g s) n = bit g n"
  by (auto simp: toggle_def bit_slot_set bit_slot_unset)

lemma within_toggle: "within s g \<Longrightarrow> within s (toggle g s)"
  unfolding within_def
  by (auto simp: toggle_def bit_slot_set bit_slot_unset split: if_splits)

lemma prefix_grid_toggle:
  assumes "t < s" "s < 64"
  shows "prefix_grid (toggle g s) t = prefix_grid g t"
proof (rule bit_eqI)
  fix n
  from assms have "63 - t \<le> int n \<Longrightarrow> n \<noteq> nat (63 - s)" by linarith
  then show "bit (prefix_grid (toggle g s) t) n = bit (prefix_grid g t) n"
    by (auto simp: bit_prefix_grid bit_toggle_other)
qed

lemma prefix_grid_within: "within s g \<Longrightarrow> prefix_grid g s = g"
  by (rule bit_eqI) (auto simp: bit_prefix_grid within_def)

lemma backtrack_clear:
  "backtrack m s < i \<Longrightarrow> i \<le> s \<Longrightarrow> \<not> (slot_is_set m i \<noteq> 0)"
proof (induction m s rule: backtrack.induct)
  case (1 m s)
  show ?case
  proof (cases "s \<ge> 0 \<and> \<not> (slot_is_set m s \<noteq> 0)")
    case True
    then have bt: "backtrack m s = backtrack m (s - 1)" by (subst backtrack_unfold) simp
    show ?thesis
    proof (cases "i = s")
      case True
      with \<open>s \<ge> 0 \<and> \<not> (slot_is_set m s \<noteq> 0)\<close> show ?thesis by simp
    next
      case False
      with True 1 bt show ?thesis by simp
    qed
  next
    case False
    then have "backtrack m s = s" by (subst backtrack_unfold) auto
    with 1 show ?thesis by simp
  qed
qed

lemma within_backtrack:
  assumes "within s g" "- 1 \<le> s"
  shows "within (backtrack g s) g"
  unfolding within_def
proof (intro allI impI)
  fix n assume n: "bit g n"
  then have n64: "n < 64" by (auto dest: bit_imp_le_length)
  define i where "i = 63 - int n"
  have i: "0 \<le> i" "i < 64" "nat (63 - i) = n" using n64 by (auto simp: i_def)
  have "i \<le> s" using assms(1) n by (auto simp: within_def i_def)
  have "slot_is_set g i \<noteq> 0" using n i by (simp add: slot_is_set_iff)
  then have "\<not> backtrack g s < i" using backtrack_clear [of g s i] \<open>i \<le> s\<close> by blast
  then show "63 - backtrack g s \<le> int n" by (simp add: i_def)
qed

text \<open>
  The invariant of the loop: the grid has no wall beyond the current slot, every prefix
  of it up to the slot before has passed the constraints, and every grid written to the
  buffer is valid.
\<close>

definition path_upto :: "Puzzle \<Rightarrow> u64 \<Rightarrow> int \<Rightarrow> bool" where
  "path_upto pz g s = (\<forall>t \<in> {0..63}. t < s \<longrightarrow> constraints_hold pz (prefix_grid g t) t)"

definition stored_valid :: "Puzzle \<Rightarrow> u64 \<Rightarrow> solve_state \<Rightarrow> bool" where
  "stored_valid pz cap st =
     (\<forall>k. k < unat (solution_i st) \<and> k < unat cap \<longrightarrow> valid_grid pz (solutions st ! k))"

definition solve_inv :: "Puzzle \<Rightarrow> u64 \<Rightarrow> solve_state \<Rightarrow> bool" where
  "solve_inv pz cap st =
     (within (slot st) (solution st) \<and> path_upto pz (solution st) (slot st) \<and>
      stored_valid pz cap st \<and> length (solutions st) = unat cap \<and>
      - 1 \<le> slot st \<and> slot st \<le> 63)"

lemma path_upto_toggle:
  "path_upto pz g s \<Longrightarrow> j \<le> s \<Longrightarrow> s < 64 \<Longrightarrow> path_upto pz (toggle g s) j"
  unfolding path_upto_def by (auto simp: prefix_grid_toggle)

lemma path_upto_step:
  assumes "path_upto pz g s" "within s g" "constraints_hold pz g s"
  shows "path_upto pz g (s + 1)"
  unfolding path_upto_def
proof (intro ballI impI)
  fix t assume t: "t \<in> {0..63}" "t < s + 1"
  show "constraints_hold pz (prefix_grid g t) t"
  proof (cases "t = s")
    case True
    then show ?thesis using assms by (simp add: prefix_grid_within)
  next
    case False
    with t assms(1) show ?thesis by (auto simp: path_upto_def)
  qed
qed

lemma path_upto_full:
  "path_upto pz g 64 \<Longrightarrow> path_ok pz g"
  by (auto simp: path_upto_def path_ok_def)

lemma solve_body_inv:
  assumes inv: "solve_inv pz cap st" and s: "0 \<le> slot st" "slot st < 64"
  shows "solve_inv pz cap (solve_body pz cap st)"
proof -
  define s where "s = slot st"
  define g where "g = toggle (solution st) s"
  define i where "i = solution_i st"
  define ok where "ok = constraints_hold pz g s"
  define j where "j = backtrack g s"
  define b where "b = (if i \<ge> cap then solutions st else (solutions st)[unat i := g])"
  have s0: "0 \<le> s" "s < 64" using s by (simp_all add: s_def)
  have w: "within s g"
    using inv by (simp add: solve_inv_def g_def s_def within_toggle)
  have pu: "path_upto pz g j'" if "j' \<le> s" for j'
    using inv that s0 by (simp add: solve_inv_def g_def s_def path_upto_toggle)
  have sv: "stored_valid pz cap st" and len: "length (solutions st) = unat cap"
    using inv by (simp_all add: solve_inv_def)
  have jr: "- 1 \<le> j" "j \<le> s" using backtrack_range [of s g] s0 by (simp_all add: j_def)
  have wj: "within j g" unfolding j_def using w s0 by (intro within_backtrack) simp_all
  have B: "solve_body pz cap st =
      (if ok \<and> s < 63 then st\<lparr>solution := g, slot := s + 1\<rparr>
       else if ok then st\<lparr>solution := g, solution_i := i + 1, solutions := b, slot := j\<rparr>
       else st\<lparr>solution := g, slot := j\<rparr>)"
    by (simp add: solve_body_toggle Let_def g_def i_def b_def ok_def j_def s_def)
  consider (advance) "ok" "s < 63" | (store) "ok" "\<not> s < 63" | (refuse) "\<not> ok" by blast
  then show ?thesis
  proof cases
    case advance
    have "within (s + 1) g" using w by (rule within_mono) simp
    moreover have "path_upto pz g (s + 1)"
      using pu [of s] w advance(1) by (intro path_upto_step) (simp_all add: ok_def)
    ultimately show ?thesis
      using advance sv len s0 by (simp add: B solve_inv_def stored_valid_def)
  next
    case store
    then have s63: "s = 63" using s0 by simp
    have "path_upto pz g (s + 1)"
      using pu [of s] w store(1) by (intro path_upto_step) (simp_all add: ok_def)
    then have vg: "valid_grid pz g"
      using s63 by (intro valid_from_path path_upto_full) simp
    have "valid_grid pz (b ! k)" if k: "k < unat (i + 1)" "k < unat cap" for k
    proof (cases "k = unat i")
      case True
      then have "\<not> cap \<le> i" using k by (simp add: word_le_nat_alt)
      then show ?thesis using True k len vg by (simp add: b_def)
    next
      case False
      with k(1) unat_succ_cases [of i] have "k < unat i" by auto
      then have "valid_grid pz (solutions st ! k)"
        using sv k(2) by (simp add: stored_valid_def i_def)
      then show ?thesis using False by (simp add: b_def)
    qed
    moreover have "length b = unat cap" by (simp add: b_def len)
    ultimately show ?thesis
      using store wj pu [of j] jr s0 by (simp add: B solve_inv_def stored_valid_def)
  next
    case refuse
    then show ?thesis
      using wj pu [of j] jr s0 sv len by (simp add: B solve_inv_def stored_valid_def)
  qed
qed

lemma solve_loop_inv:
  "solve_inv pz cap st \<Longrightarrow> solve_inv pz cap (solve_loop pz cap st)"
proof (induction pz cap st rule: solve_loop.induct)
  case (1 pz cap st)
  show ?case
  proof (cases "0 \<le> slot st \<and> slot st < 64")
    case True
    then have "solve_loop pz cap st = solve_loop pz cap (solve_body pz cap st)"
      by (simp add: solve_loop_step)
    with True 1 show ?thesis by (simp add: solve_body_inv)
  next
    case False
    then have "solve_loop pz cap st = st" by (intro solve_loop_stop) auto
    with 1 show ?thesis by simp
  qed
qed

lemma solve_inv_init:
  "length buf = unat cap \<Longrightarrow>
   solve_inv pz cap \<lparr>solution = 0, slot = 0, solution_i = 0, solutions = buf\<rparr>"
  by (simp add: solve_inv_def within_zero path_upto_def stored_valid_def)

lemma stored_solutions_valid:
  assumes "length buf = unat cap" "g \<in> set (stored_solutions pz buf cap)"
  shows "valid_grid pz g"
proof -
  let ?r = "solve_loop pz cap \<lparr>solution = 0, slot = 0, solution_i = 0, solutions = buf\<rparr>"
  have "solve_inv pz cap ?r" using assms(1) by (intro solve_loop_inv solve_inv_init)
  then have sv: "stored_valid pz cap ?r" and len: "length (solutions ?r) = unat cap"
    by (simp_all add: solve_inv_def)
  from assms(2) have "g \<in> set (take (min (unat (solution_i ?r)) (unat cap)) (solutions ?r))"
    by (simp add: stored_solutions_def solve_def Let_def)
  then obtain k where "k < min (unat (solution_i ?r)) (unat cap)" "solutions ?r ! k = g"
    using len by (auto simp: in_set_conv_nth)
  then show ?thesis using sv by (auto simp: stored_valid_def)
qed

section \<open>The counter of the solver does not wrap\<close>

text \<open>
  \<open>solution_i\<close> is a \<open>u64\<close>. It cannot wrap: the search has \<open>2 ^ 64\<close> leaves, and of
  the two grids that differ in slot 63 only, at most one has the wall count that row 7
  asks for. \<open>leaves_left\<close> bounds the number of grids the search can still record.
\<close>

definition wall_at :: "u64 \<Rightarrow> int \<Rightarrow> bool" where
  "wall_at g i = (slot_is_set g i \<noteq> 0)"

fun pending :: "u64 \<Rightarrow> nat \<Rightarrow> nat" where
  "pending g 0 = 0"
| "pending g (Suc i) = pending g i + (if wall_at g (int i) then 2 ^ (62 - i) else 0)"

definition leaves_left :: "Puzzle \<Rightarrow> u64 \<Rightarrow> int \<Rightarrow> nat" where
  "leaves_left pz g s =
     (if s < 0 then 0
      else pending g (nat s) +
        (if \<not> wall_at g s then 2 ^ (63 - nat s)
         else if s < 63 then 2 ^ (62 - nat s)
         else if constraints_hold pz (slot_unset g 63) 63 then 1 else 0))"

definition count_inv :: "Puzzle \<Rightarrow> solve_state \<Rightarrow> bool" where
  "count_inv pz st =
     (within (slot st) (solution st) \<and> - 1 \<le> slot st \<and> slot st \<le> 63 \<and>
      unat (solution_i st) + leaves_left pz (solution st) (slot st) \<le> 2 ^ 63)"

lemma wall_at_toggle:
  "0 \<le> s \<Longrightarrow> s < 64 \<Longrightarrow>
   wall_at (toggle g s) i = (if i = s then \<not> wall_at g s else wall_at g i)"
  by (simp add: wall_at_def toggle_same toggle_other)

lemma wall_at_within: "within s g \<Longrightarrow> s < i \<Longrightarrow> \<not> wall_at g i"
  by (auto simp: wall_at_def slot_is_set_iff within_def)

lemma pending_cong:
  "(\<And>i. i < k \<Longrightarrow> wall_at g (int i) = wall_at g' (int i)) \<Longrightarrow> pending g k = pending g' k"
  by (induction k) auto

lemma pending_toggle: "k < 64 \<Longrightarrow> pending (toggle g (int k)) k = pending g k"
  by (rule pending_cong) (simp add: wall_at_toggle)

lemma backtrack_pending:
  "- 1 \<le> s \<Longrightarrow> pending g (nat (backtrack g s + 1)) = pending g (nat (s + 1))"
proof (induction g s rule: backtrack.induct)
  case (1 g s)
  show ?case
  proof (cases "s \<ge> 0 \<and> \<not> (slot_is_set g s \<noteq> 0)")
    case True
    then have bt: "backtrack g s = backtrack g (s - 1)" by (subst backtrack_unfold) simp
    have n: "nat (s + 1) = Suc (nat s)" "nat (s - 1 + 1) = nat s" "int (nat s) = s"
      using True by auto
    have "pending g (nat (backtrack g (s - 1) + 1)) = pending g (nat (s - 1 + 1))"
      using True 1 by auto
    then show ?thesis using True by (simp add: bt n wall_at_def)
  next
    case False
    then have "backtrack g s = s" by (subst backtrack_unfold) auto
    then show ?thesis by simp
  qed
qed

lemma backtrack_wall: "0 \<le> s \<Longrightarrow> wall_at g s \<Longrightarrow> backtrack g s = s"
  by (subst backtrack_unfold) (simp add: wall_at_def)

lemma backtrack_open:
  "0 \<le> s \<Longrightarrow> \<not> wall_at g s \<Longrightarrow> backtrack g s = backtrack g (s - 1)"
  by (subst backtrack_unfold) (simp add: wall_at_def)

text \<open>With a wall at slot 63 and without it, row 7 has different wall counts.\<close>

lemma last_slot_exclusive:
  assumes "wall_at g 63" "constraints_hold pz g 63"
  shows "\<not> constraints_hold pz (slot_unset g 63) 63"
proof
  assume "constraints_hold pz (slot_unset g 63) 63"
  then have "check_row_count pz (slot_unset g 63) 63" "check_row_count pz g 63"
    using assms(2) by (simp_all add: constraints_hold_def)
  then have eq: "count_walls_in_row (slot_unset g 63) 7 = count_walls_in_row g 7"
    by (simp add: check_row_count_def pos_from_slot_nonneg Let_def split: if_splits)
  define m :: u64 where "m = drop_bit (nat (7 * 8)) 0xFF00000000000000"
  have m0: "bit m 0" by (simp add: m_def)
  have g0: "bit g 0" using assms(1) by (simp add: wall_at_def slot_is_set_iff)
  have "bits_of (m AND g) = insert 0 (bits_of (m AND slot_unset g 63))"
    using m0 g0 by (auto simp: bits_of_def bit_and_iff bit_slot_unset)
  moreover have "0 \<notin> bits_of (m AND slot_unset g 63)"
    by (simp add: bits_of_def bit_and_iff bit_slot_unset)
  ultimately have "card (bits_of (m AND g)) = Suc (card (bits_of (m AND slot_unset g 63)))"
    using finite_bits_of by simp
  then have "count_walls_in_row g 7 = count_walls_in_row (slot_unset g 63) 7 + 1"
    by (simp add: count_walls_in_row_def count_set_bits_card m_def)
  with eq show False by simp
qed

lemma pow_split: "s < 63 \<Longrightarrow> (2::nat) ^ (63 - s) = 2 ^ (62 - s) + 2 ^ (62 - s)"
proof -
  assume "s < 63"
  then have "63 - s = Suc (62 - s)" by simp
  then show ?thesis by simp
qed

text \<open>The state after one iteration, by the three ways an iteration can end.\<close>

lemma solve_body_cases:
  fixes pz cap st
  defines "g \<equiv> toggle (solution st) (slot st)"
  defines "ok \<equiv> constraints_hold pz g (slot st)"
  shows "solve_body pz cap st =
      (if ok \<and> slot st < 63 then st\<lparr>solution := g, slot := slot st + 1\<rparr>
       else if ok then
         st\<lparr>solution := g, solution_i := solution_i st + 1,
            solutions := (if solution_i st \<ge> cap then solutions st
                          else (solutions st)[unat (solution_i st) := g]),
            slot := backtrack g (slot st)\<rparr>
       else st\<lparr>solution := g, slot := backtrack g (slot st)\<rparr>)"
  by (simp add: solve_body_toggle Let_def g_def ok_def)

lemma leaves_left_backtrack:
  assumes "0 \<le> s" "s < 64" "\<not> wall_at g s"
  shows "leaves_left pz g (backtrack g s) = pending g (nat s)"
proof -
  define j where "j = backtrack g s"
  have bt: "j = backtrack g (s - 1)" using assms by (simp add: j_def backtrack_open)
  have jr: "- 1 \<le> j" "j \<le> s - 1"
    using backtrack_range [of "s - 1" g] assms(1) by (simp_all add: bt)
  have "pending g (nat (j + 1)) = pending g (nat (s - 1 + 1))"
    unfolding bt using assms(1) by (intro backtrack_pending) simp
  then have p: "pending g (nat (j + 1)) = pending g (nat s)" by simp
  show ?thesis
  proof (cases "j < 0")
    case True
    with jr have "j = - 1" by simp
    with p show ?thesis by (simp add: leaves_left_def j_def [symmetric])
  next
    case False
    then have "slot_is_set g j \<noteq> 0"
      using backtrack_set [of g "s - 1"] by (simp add: bt)
    then have wj: "wall_at g j" by (simp add: wall_at_def)
    have "nat (j + 1) = Suc (nat j)" "int (nat j) = j" using False by simp_all
    then have "pending g (nat (j + 1)) = pending g (nat j) + 2 ^ (62 - nat j)"
      using wj by simp
    moreover have "j < 63" using jr assms(2) by simp
    ultimately show ?thesis
      using False wj p by (simp add: leaves_left_def j_def [symmetric])
  qed
qed

lemma solve_body_count_inv:
  assumes inv: "count_inv pz st" and s: "0 \<le> slot st" "slot st < 64"
  shows "count_inv pz (solve_body pz cap st)"
proof -
  define s where "s = slot st"
  define g0 where "g0 = solution st"
  define g where "g = toggle g0 s"
  define i where "i = solution_i st"
  define ok where "ok = constraints_hold pz g s"
  define j where "j = backtrack g s"
  define n where "n = nat s"
  have s0: "0 \<le> s" "s < 64" using s by (simp_all add: s_def)
  have sn: "s = int n" "n < 64" using s0 by (simp_all add: n_def)
  have w0: "within s g0" and bound: "unat i + leaves_left pz g0 s \<le> 2 ^ 63"
    using inv by (simp_all add: count_inv_def s_def g0_def i_def)
  have w: "within s g" using w0 by (simp add: g_def within_toggle)
  have pg: "pending g n = pending g0 n"
    unfolding g_def sn(1) using sn(2) by (rule pending_toggle)
  have ws: "wall_at g s = (\<not> wall_at g0 s)" using s0 by (simp add: g_def wall_at_toggle)
  have jr: "- 1 \<le> j" "j \<le> s" using backtrack_range [of s g] s0 by (simp_all add: j_def)
  have wj: "within j g" unfolding j_def using w s0 by (intro within_backtrack) simp_all
  have L0: "leaves_left pz g0 s = pending g0 n +
        (if \<not> wall_at g0 s then 2 ^ (63 - n)
         else if s < 63 then 2 ^ (62 - n)
         else if constraints_hold pz (slot_unset g0 63) 63 then 1 else 0)"
    using s0 by (simp add: leaves_left_def n_def)
  have unset: "g = slot_unset g0 s" if "wall_at g0 s"
    using that by (simp add: g_def toggle_def wall_at_def)
  have B: "solve_body pz cap st =
      (if ok \<and> s < 63 then st\<lparr>solution := g, slot := s + 1\<rparr>
       else if ok then
         st\<lparr>solution := g, solution_i := i + 1,
            solutions := (if i \<ge> cap then solutions st else (solutions st)[unat i := g]),
            slot := j\<rparr>
       else st\<lparr>solution := g, slot := j\<rparr>)"
    unfolding solve_body_cases by (simp add: g_def g0_def s_def i_def ok_def j_def)
  have rest: "leaves_left pz g j + (if ok \<and> s = 63 then 1 else 0) \<le> leaves_left pz g0 s"
  proof (cases "wall_at g0 s")
    case True
    then have o: "\<not> wall_at g s" using ws by simp
    have "leaves_left pz g j = pending g n"
      unfolding j_def n_def using s0(1,2) o by (rule leaves_left_backtrack)
    moreover have "ok \<and> s = 63 \<Longrightarrow> constraints_hold pz (slot_unset g0 63) 63"
      using unset [OF True] by (auto simp: ok_def)
    ultimately show ?thesis using True by (auto simp: L0 pg)
  next
    case False
    then have o: "wall_at g s" using ws by simp
    then have js: "j = s" using s0 by (simp add: j_def backtrack_wall)
    have "ok \<and> s = 63 \<Longrightarrow> \<not> constraints_hold pz (slot_unset g 63) 63"
      using o last_slot_exclusive [of g pz] by (auto simp: ok_def)
    moreover have "s < 63 \<Longrightarrow> (2::nat) ^ (62 - n) \<le> 2 ^ (63 - n)"
      by (intro power_increasing) simp_all
    moreover have "leaves_left pz g s = pending g0 n +
        (if s < 63 then 2 ^ (62 - n)
         else if constraints_hold pz (slot_unset g 63) 63 then 1 else 0)"
      using o s0 by (simp add: leaves_left_def pg n_def [symmetric])
    moreover have "s = 63 \<Longrightarrow> (2::nat) ^ (63 - n) = 1" by (simp add: n_def)
    ultimately show ?thesis
      using False by (auto simp: L0 js)
  qed
  consider (advance) "ok" "s < 63" | (store) "ok" "\<not> s < 63" | (refuse) "\<not> ok" by blast
  then show ?thesis
  proof cases
    case advance
    have n63: "n < 63" using advance(2) s0 by (simp add: n_def)
    have o: "\<not> wall_at g (s + 1)" using w by (rule wall_at_within) simp
    have "nat (s + 1) = Suc n" using s0 by (simp add: n_def)
    then have "leaves_left pz g (s + 1) =
        pending g n + (if wall_at g s then 2 ^ (62 - n) else 0) + 2 ^ (62 - n)"
      using o s0 n63 sn(1) [symmetric] by (simp add: leaves_left_def)
    also have "\<dots> = leaves_left pz g0 s"
      using advance(2) pow_split [OF n63] by (simp add: L0 pg ws)
    finally have "leaves_left pz g (s + 1) = leaves_left pz g0 s" .
    moreover have "within (s + 1) g" using w by (rule within_mono) simp
    ultimately show ?thesis
      using advance bound s0 by (simp add: B count_inv_def i_def)
  next
    case store
    then have "leaves_left pz g j + 1 \<le> leaves_left pz g0 s" using rest s0 by simp
    moreover have "unat (i + 1) \<le> unat i + 1" using unat_succ_cases [of i] by auto
    ultimately have "unat (i + 1) + leaves_left pz g j \<le> 2 ^ 63" using bound by linarith
    then show ?thesis using store wj jr s0 by (simp add: B count_inv_def i_def)
  next
    case refuse
    then have "leaves_left pz g j \<le> leaves_left pz g0 s" using rest by simp
    then show ?thesis using refuse wj jr s0 bound by (simp add: B count_inv_def i_def)
  qed
qed

lemma count_inv_init:
  "count_inv pz \<lparr>solution = 0, slot = 0, solution_i = 0, solutions = buf\<rparr>"
  by (simp add: count_inv_def within_zero leaves_left_def wall_at_def slot_is_set_def)

lemma count_inv_no_wrap:
  assumes "count_inv pz st" "0 \<le> slot st" "slot st < 64"
    "constraints_hold pz (toggle (solution st) (slot st)) (slot st)" "\<not> slot st < 63"
  shows "unat (solution_i st + 1) = Suc (unat (solution_i st))"
proof -
  have s: "slot st = 63" using assms by simp
  have "1 \<le> leaves_left pz (solution st) 63"
  proof (cases "wall_at (solution st) 63")
    case True
    then have "toggle (solution st) 63 = slot_unset (solution st) 63"
      by (simp add: toggle_def wall_at_def)
    with assms(4) True show ?thesis by (simp add: leaves_left_def s)
  next
    case False
    then show ?thesis by (simp add: leaves_left_def)
  qed
  with assms(1) have "unat (solution_i st) < 2 ^ 63" by (simp add: count_inv_def s)
  then have "unat (solution_i st) + 1 < 2 ^ 64" by simp
  then show ?thesis by (simp add: unat_word_ariths)
qed

section \<open>The solver finds every grid whose prefixes pass\<close>

text \<open>
  \<open>ahead G g s\<close>: the search, at slot \<open>s\<close> with grid \<open>g\<close>, has still to come to the
  grid \<open>G\<close>. Either slot \<open>s\<close> is fresh and \<open>G\<close> agrees with \<open>g\<close> below it, or some
  slot up to \<open>s\<close> holds a wall in \<open>g\<close>, \<open>G\<close> has that slot open and agrees with \<open>g\<close>
  below it: the open branch at that slot is still to be tried. \<open>found G cap st\<close>: the grid
  has been counted, and written if its index is inside the buffer.
\<close>

definition same_below :: "u64 \<Rightarrow> u64 \<Rightarrow> int \<Rightarrow> bool" where
  "same_below G g j = (\<forall>i. 0 \<le> i \<and> i < j \<longrightarrow> wall_at G i = wall_at g i)"

definition ahead :: "u64 \<Rightarrow> u64 \<Rightarrow> int \<Rightarrow> bool" where
  "ahead G g s =
     (0 \<le> s \<and>
      ((\<not> wall_at g s \<and> same_below G g s) \<or>
       (\<exists>j. 0 \<le> j \<and> j \<le> s \<and> wall_at g j \<and> \<not> wall_at G j \<and> same_below G g j)))"

definition found :: "u64 \<Rightarrow> u64 \<Rightarrow> solve_state \<Rightarrow> bool" where
  "found G cap st =
     (\<exists>k. k < unat (solution_i st) \<and> (k < unat cap \<longrightarrow> solutions st ! k = G))"

definition comp_inv :: "Puzzle \<Rightarrow> u64 \<Rightarrow> u64 \<Rightarrow> solve_state \<Rightarrow> bool" where
  "comp_inv pz G cap st =
     (count_inv pz st \<and> length (solutions st) = unat cap \<and>
      (found G cap st \<or> ahead G (solution st) (slot st)))"

lemma prefix_grid_eq:
  assumes "within s g" "0 \<le> s" "s < 64"
    and "\<And>i. 0 \<le> i \<Longrightarrow> i \<le> s \<Longrightarrow> wall_at G i = wall_at g i"
  shows "prefix_grid G s = g"
proof (rule bit_eqI)
  fix n
  show "bit (prefix_grid G s) n = bit g n"
  proof (cases "63 - s \<le> int n \<and> n < 64")
    case True
    define i where "i = 63 - int n"
    have i: "0 \<le> i" "i \<le> s" "i < 64" "nat (63 - i) = n" using True by (auto simp: i_def)
    have "wall_at G i = wall_at g i" using i by (intro assms(4))
    then have "bit G n = bit g n" using i by (simp add: wall_at_def slot_is_set_iff)
    then show ?thesis using True by (simp add: bit_prefix_grid)
  next
    case False
    then have "\<not> bit g n" using assms(1) by (auto simp: within_def dest: bit_imp_le_length)
    moreover have "\<not> bit (prefix_grid G s) n"
      using False by (auto simp: bit_prefix_grid dest: bit_imp_le_length)
    ultimately show ?thesis by simp
  qed
qed

lemma same_below_toggle:
  "0 \<le> s \<Longrightarrow> s < 64 \<Longrightarrow> j \<le> s \<Longrightarrow> same_below G (toggle g s) j = same_below G g j"
  by (auto simp: same_below_def wall_at_toggle)

lemma same_below_Suc:
  "same_below G g s \<Longrightarrow> wall_at G s = wall_at g s \<Longrightarrow> same_below G g (s + 1)"
  unfolding same_below_def
proof (intro allI impI)
  fix i assume a: "\<forall>i. 0 \<le> i \<and> i < s \<longrightarrow> wall_at G i = wall_at g i"
    "wall_at G s = wall_at g s" "0 \<le> i \<and> i < s + 1"
  show "wall_at G i = wall_at g i"
  proof (cases "i = s")
    case True with a(2) show ?thesis by simp
  next
    case False with a(1,3) show ?thesis by simp
  qed
qed

lemma on_path_ok:
  assumes "path_ok pz G" "within s g" "0 \<le> s" "s < 64"
    "same_below G g s" "wall_at G s = wall_at g s"
  shows "constraints_hold pz g s" "prefix_grid G s = g"
proof -
  have "wall_at G i = wall_at g i" if "0 \<le> i" "i \<le> s" for i
    using that assms(5,6) by (cases "i = s") (auto simp: same_below_def)
  then show eq: "prefix_grid G s = g"
    using assms(2,3,4) by (intro prefix_grid_eq) simp_all
  have "s \<in> {0..63}" using assms(3,4) by simp
  with assms(1) have "constraints_hold pz (prefix_grid G s) s"
    unfolding path_ok_def by blast
  then show "constraints_hold pz g s" by (simp add: eq)
qed

lemma backtrack_keeps_wall:
  assumes "wall_at g j0" "j0 \<le> s"
  shows "j0 \<le> backtrack g s"
proof (rule ccontr)
  assume "\<not> j0 \<le> backtrack g s"
  then have "backtrack g s < j0" by simp
  then have "\<not> (slot_is_set g j0 \<noteq> 0)" using assms(2) by (rule backtrack_clear)
  with assms(1) show False by (simp add: wall_at_def)
qed

lemma solve_body_comp_inv:
  assumes path: "path_ok pz G" and inv: "comp_inv pz G cap st"
    and s: "0 \<le> slot st" "slot st < 64"
  shows "comp_inv pz G cap (solve_body pz cap st)"
proof -
  define s where "s = slot st"
  define g0 where "g0 = solution st"
  define g where "g = toggle g0 s"
  define i where "i = solution_i st"
  define ok where "ok = constraints_hold pz g s"
  define j where "j = backtrack g s"
  define b where "b = (if i \<ge> cap then solutions st else (solutions st)[unat i := g])"
  have s0: "0 \<le> s" "s < 64" using s by (simp_all add: s_def)
  have ci: "count_inv pz st" and len: "length (solutions st) = unat cap"
    using inv by (simp_all add: comp_inv_def)
  have w: "within s g"
    using ci by (simp add: count_inv_def g_def g0_def s_def within_toggle)
  have ws: "wall_at g s = (\<not> wall_at g0 s)" using s0 by (simp add: g_def wall_at_toggle)
  have wo: "wall_at g i' = wall_at g0 i'" if "i' \<noteq> s" for i'
    using s0 that by (simp add: g_def wall_at_toggle)
  have sb: "same_below G g j' = same_below G g0 j'" if "j' \<le> s" for j'
    unfolding g_def using s0 that by (rule same_below_toggle)
  have jr: "- 1 \<le> j" "j \<le> s" using backtrack_range [of s g] s0 by (simp_all add: j_def)
  have B: "solve_body pz cap st =
      (if ok \<and> s < 63 then st\<lparr>solution := g, slot := s + 1\<rparr>
       else if ok then st\<lparr>solution := g, solution_i := i + 1, solutions := b, slot := j\<rparr>
       else st\<lparr>solution := g, slot := j\<rparr>)"
    unfolding solve_body_cases
    by (simp add: g_def g0_def s_def i_def ok_def j_def b_def)
  have ci': "count_inv pz (solve_body pz cap st)"
    using ci s by (rule solve_body_count_inv)
  have len': "length (solutions (solve_body pz cap st)) = unat cap"
    by (simp add: B b_def len)
  have nw: "unat (i + 1) = Suc (unat i)" if "ok" "\<not> s < 63"
    unfolding i_def using ci s that
    by (intro count_inv_no_wrap [of pz]) (simp_all add: ok_def g_def g0_def s_def)
  have keep: "found G cap (solve_body pz cap st)" if f: "found G cap st"
  proof -
    from f obtain k where k: "k < unat i" "k < unat cap \<longrightarrow> solutions st ! k = G"
      by (auto simp: found_def i_def)
    have "found G cap (st\<lparr>solution := g, solution_i := i + 1, solutions := b, slot := j\<rparr>)"
      if "ok" "\<not> s < 63"
    proof -
      have "k < unat (i + 1)" using k(1) nw [OF that] by simp
      moreover have "b ! k = solutions st ! k" using k(1) by (simp add: b_def)
      ultimately show ?thesis using k(2) by (auto simp: found_def)
    qed
    moreover have "found G cap (st\<lparr>solution := g', slot := s'\<rparr>)" for g' s'
      using f by (simp add: found_def)
    ultimately show ?thesis by (simp add: B)
  qed
  have hit: "found G cap (solve_body pz cap st) \<or>
      ahead G (solution (solve_body pz cap st)) (slot (solve_body pz cap st))"
    if sb0: "same_below G g0 s" and eq: "wall_at G s = wall_at g s"
  proof -
    have sbg: "same_below G g s" using sb0 sb [of s] by simp
    have okT: "ok" and pg: "prefix_grid G s = g"
      using on_path_ok [OF path w s0 sbg eq] by (simp_all add: ok_def)
    show ?thesis
    proof (cases "s < 63")
      case True
      have "\<not> wall_at g (s + 1)" using w by (rule wall_at_within) simp
      moreover have "same_below G g (s + 1)" using sbg eq by (rule same_below_Suc)
      ultimately have "ahead G g (s + 1)" using s0 by (simp add: ahead_def)
      then show ?thesis using okT True by (simp add: B)
    next
      case False
      then have "s = 63" using s0 by simp
      then have gG: "g = G" using pg by (simp add: prefix_grid_63)
      have "unat i < unat (i + 1)" using nw [OF okT False] by simp
      moreover have "unat i < unat cap \<longrightarrow> b ! unat i = G"
        using len by (auto simp: b_def gG word_le_nat_alt)
      ultimately have "found G cap (st\<lparr>solution := g, solution_i := i + 1, solutions := b, slot := j\<rparr>)"
        by (auto simp: found_def)
      then show ?thesis using okT False by (simp add: B)
    qed
  qed
  have branch: "ahead G (solution (solve_body pz cap st)) (slot (solve_body pz cap st))"
    if j0: "0 \<le> j0" "j0 \<le> s" "wall_at g j0" "\<not> wall_at G j0" "same_below G g j0" for j0
  proof -
    have "j0 \<le> j" unfolding j_def using j0(3,2) by (rule backtrack_keeps_wall)
    then have "ahead G g j" using j0 by (auto simp: ahead_def)
    moreover have "ahead G g (s + 1)" using j0 s0 by (auto simp: ahead_def)
    ultimately show ?thesis by (simp add: B)
  qed
  have "found G cap (solve_body pz cap st) \<or>
      ahead G (solution (solve_body pz cap st)) (slot (solve_body pz cap st))"
  proof (cases "found G cap st")
    case True
    then show ?thesis using keep by simp
  next
    case False
    with inv have a: "ahead G g0 s" by (simp add: comp_inv_def g0_def s_def)
    then consider (fresh) "\<not> wall_at g0 s" "same_below G g0 s"
      | (pend) j0 where "0 \<le> j0" "j0 \<le> s" "wall_at g0 j0" "\<not> wall_at G j0" "same_below G g0 j0"
      by (auto simp: ahead_def)
    then show ?thesis
    proof cases
      case fresh
      show ?thesis
      proof (cases "wall_at G s")
        case True
        then have "wall_at G s = wall_at g s" using fresh(1) ws by simp
        with fresh(2) show ?thesis by (rule hit)
      next
        case False
        have "ahead G (solution (solve_body pz cap st)) (slot (solve_body pz cap st))"
          using s0 False fresh ws sb [of s] by (intro branch [of s]) simp_all
        then show ?thesis by simp
      qed
    next
      case pend
      show ?thesis
      proof (cases "j0 = s")
        case True
        then have "wall_at G s = wall_at g s" using pend(3,4) ws by simp
        moreover have "same_below G g0 s" using pend(5) True by simp
        ultimately show ?thesis by (intro hit)
      next
        case False
        then have "wall_at g j0" "same_below G g j0"
          using pend wo [of j0] sb [of j0] by simp_all
        then have "ahead G (solution (solve_body pz cap st)) (slot (solve_body pz cap st))"
          using pend(1,2,4) by (intro branch [of j0]) simp_all
        then show ?thesis by simp
      qed
    qed
  qed
  then show ?thesis using ci' len' by (simp add: comp_inv_def)
qed

lemma solve_loop_comp_inv:
  "path_ok pz G \<Longrightarrow> comp_inv pz G cap st \<Longrightarrow> comp_inv pz G cap (solve_loop pz cap st)"
proof (induction pz cap st rule: solve_loop.induct)
  case (1 pz cap st)
  show ?case
  proof (cases "0 \<le> slot st \<and> slot st < 64")
    case True
    then have "solve_loop pz cap st = solve_loop pz cap (solve_body pz cap st)"
      by (simp add: solve_loop_step)
    with True 1 show ?thesis by (simp add: solve_body_comp_inv)
  next
    case False
    then have "solve_loop pz cap st = st" by (intro solve_loop_stop) auto
    with 1 show ?thesis by simp
  qed
qed

lemma solve_loop_exit:
  "\<not> (0 \<le> slot (solve_loop pz cap st) \<and> slot (solve_loop pz cap st) < 64)"
proof (induction pz cap st rule: solve_loop.induct)
  case (1 pz cap st)
  show ?case
  proof (cases "0 \<le> slot st \<and> slot st < 64")
    case True
    then have "solve_loop pz cap st = solve_loop pz cap (solve_body pz cap st)"
      by (simp add: solve_loop_step)
    with True 1 show ?thesis by simp
  next
    case False
    then have "solve_loop pz cap st = st" by (intro solve_loop_stop) auto
    with False show ?thesis by simp
  qed
qed

lemma solve_finds:
  assumes "path_ok pz G" "length buf = unat cap"
  shows "\<exists>k. k < unat (fst (solve pz buf cap)) \<and>
             (k < unat cap \<longrightarrow> snd (solve pz buf cap) ! k = G)"
proof -
  let ?i = "\<lparr>solution = 0, slot = 0, solution_i = 0, solutions = buf\<rparr>"
  let ?r = "solve_loop pz cap ?i"
  have "ahead G 0 0" by (simp add: ahead_def same_below_def wall_at_def slot_is_set_def)
  then have "comp_inv pz G cap ?i"
    using assms(2) by (simp add: comp_inv_def count_inv_init)
  with assms(1) have c: "comp_inv pz G cap ?r" by (rule solve_loop_comp_inv)
  then have "- 1 \<le> slot ?r" by (simp add: comp_inv_def count_inv_def)
  with solve_loop_exit [of pz cap ?i] have "slot ?r < 0"
    using c by (simp add: comp_inv_def count_inv_def)
  then have "\<not> ahead G (solution ?r) (slot ?r)" by (simp add: ahead_def)
  with c have "found G cap ?r" by (simp add: comp_inv_def)
  then show ?thesis by (simp add: found_def solve_def Let_def)
qed

section \<open>The entries of the buffer beyond the count\<close>






section \<open>A puzzle with two solutions\<close>

text \<open>
  Two rings of eight open cells, each around one wall, in opposite corners of the board,
  everything else a wall. The rings in the other two corners give the same wall counts.
\<close>

definition two_ring_puzzle :: Puzzle where
  "two_ring_puzzle = \<lparr>row_wall_counts = [5, 6, 5, 8, 5, 6, 5, 8],
     col_wall_counts = [5, 6, 5, 8, 5, 6, 5, 8], monsters = 0, treasures = 0\<rparr>"

definition rings_main :: u64 where
  "rings_main = 2260560722099827199"

definition rings_anti :: u64 where
  "rings_anti = 17435107610480025599"

lemma path_ok_list:
  "path_ok pz G = list_all (\<lambda>t. constraints_hold pz (prefix_grid G t) t) [0..63]"
  by (simp add: path_ok_def list_all_iff)

lemma rings_main_path: "path_ok two_ring_puzzle rings_main"
  by (simp add: path_ok_list upto_rec1 constraint_eval grid_eval prefix_grid_def
        two_ring_puzzle_def rings_main_def mask_eq_exp_minus_1)

lemma rings_anti_path: "path_ok two_ring_puzzle rings_anti"
  by (simp add: path_ok_list upto_rec1 constraint_eval grid_eval prefix_grid_def
        two_ring_puzzle_def rings_anti_def mask_eq_exp_minus_1)

lemma two_ring_count:
  assumes "length buf = unat cap"
  shows "2 \<le> unat (fst (solve two_ring_puzzle buf cap))"
proof (rule ccontr)
  assume "\<not> 2 \<le> unat (fst (solve two_ring_puzzle buf cap))"
  then have small: "unat (fst (solve two_ring_puzzle buf cap)) \<le> 1" by simp
  let ?i = "\<lparr>solution = 0, slot = 0, solution_i = 0, solutions = [0 :: u64]\<rparr>"
  have n: "fst (solve two_ring_puzzle [0] 1) = fst (solve two_ring_puzzle buf cap)"
    using solve_lockstep [of "[0]" 1 buf cap two_ring_puzzle] assms
    by (simp add: lockstep_def solve_def Let_def)
  obtain ka where ka: "ka < unat (fst (solve two_ring_puzzle [0] 1))"
      "ka < unat (1 :: u64) \<longrightarrow> snd (solve two_ring_puzzle [0] 1) ! ka = rings_main"
    using solve_finds [OF rings_main_path, of "[0]" 1] by auto
  obtain kb where kb: "kb < unat (fst (solve two_ring_puzzle [0] 1))"
      "kb < unat (1 :: u64) \<longrightarrow> snd (solve two_ring_puzzle [0] 1) ! kb = rings_anti"
    using solve_finds [OF rings_anti_path, of "[0]" 1] by auto
  from ka(1) kb(1) small have "ka = 0" "kb = 0" by (simp_all add: n)
  with ka(2) kb(2) have "rings_main = rings_anti" by simp
  then show False by (simp add: rings_main_def rings_anti_def)
qed


section \<open>Claims about the solver's count and buffer\<close>



text \<open>
  C1. Every grid that \<open>solve\<close> stores in the caller's buffer satisfies all seven
  constraints (no overlap, row count, column count, dead ends, monsters, wide space,
  treasure rooms) at every slot from 0 to 63, evaluated on the complete grid. This holds
  for every puzzle record, whatever its row and column targets.
\<close>

theorem solve_solutions_valid:
  assumes "length buf = unat cap"
  shows "\<forall>g \<in> set (stored_solutions pz buf cap). \<forall>t \<in> {0..63}.
           check_doesnt_overlap pz g \<and> check_row_count pz g t \<and> check_col_count pz g t \<and>
           check_dead_ends pz g t \<and> check_monsters pz g t \<and> check_wide_space pz g t \<and>
           check_treasure_rooms pz g t"
proof (intro ballI)
  fix g and t :: int
  assume "g \<in> set (stored_solutions pz buf cap)" and t: "t \<in> {0..63}"
  with assms have "valid_grid pz g" by (intro stored_solutions_valid)
  with t have "constraints_hold pz g t" unfolding valid_grid_def by blast
  then show "check_doesnt_overlap pz g \<and> check_row_count pz g t \<and> check_col_count pz g t \<and>
           check_dead_ends pz g t \<and> check_monsters pz g t \<and> check_wide_space pz g t \<and>
           check_treasure_rooms pz g t"
    by (simp add: constraints_hold_def)
qed

theorem solve_solutions_valid_witness:
  "stored_solutions two_ring_puzzle [0] 1 \<noteq> [] \<and>
   check_row_count two_ring_puzzle (hd (stored_solutions two_ring_puzzle [0] 1)) 7 \<and>
   check_col_count two_ring_puzzle (hd (stored_solutions two_ring_puzzle [0] 1)) 63 \<and>
   check_dead_ends two_ring_puzzle (hd (stored_solutions two_ring_puzzle [0] 1)) 0 \<and>
   check_wide_space two_ring_puzzle (hd (stored_solutions two_ring_puzzle [0] 1)) 9"
proof -
  have "2 \<le> unat (fst (solve two_ring_puzzle [0] 1))"
    by (rule two_ring_count) simp
  then have "min (unat (fst (solve two_ring_puzzle [0] 1))) (unat (1 :: u64)) = 1" by simp
  moreover have "length (snd (solve two_ring_puzzle [0] 1)) = 1"
    using solve_lockstep [of "[0]" 1 "[0]" 1 two_ring_puzzle]
    by (simp add: lockstep_def solve_def Let_def)
  ultimately have ne: "stored_solutions two_ring_puzzle [0] 1 \<noteq> []"
    by (auto simp: stored_solutions_def split: prod.splits)
  then have "hd (stored_solutions two_ring_puzzle [0] 1) \<in> set (stored_solutions two_ring_puzzle [0] 1)"
    by simp
  then show ?thesis
    using ne solve_solutions_valid [of "[0]" 1 two_ring_puzzle] by fastforce
qed

section \<open>From the generator's checks to the solver's checks\<close>

text \<open>
  When the generator is at slot \<open>t\<close> its puzzle holds the monsters and treasures up to
  \<open>t\<close> only. \<open>cut pz t\<close> is the puzzle \<open>pz\<close> with both sets cut off after slot \<open>t\<close>,
  and \<open>gen_path pz g\<close> says that every prefix of a finished tiling has passed the six
  checks of the generator at its last slot.
\<close>

definition cut :: "Puzzle \<Rightarrow> int \<Rightarrow> Puzzle" where
  "cut pz t = pz\<lparr>monsters := prefix_grid (monsters pz) t,
                  treasures := prefix_grid (treasures pz) t\<rparr>"

definition gen_path_upto :: "Puzzle \<Rightarrow> u64 \<Rightarrow> int \<Rightarrow> bool" where
  "gen_path_upto pz g s =
     (\<forall>t \<in> {0..63}. t < s \<longrightarrow> gen_constraints_hold (cut pz t) (prefix_grid g t) t)"

definition gen_path :: "Puzzle \<Rightarrow> u64 \<Rightarrow> bool" where
  "gen_path pz g = gen_path_upto pz g 64"

lemma cut_fields:
  "monsters (cut pz t) = prefix_grid (monsters pz) t"
  "treasures (cut pz t) = prefix_grid (treasures pz) t"
  by (simp_all add: cut_def)

lemma derive_fields:
  "monsters (derive_puzzle pz g) = monsters pz" "treasures (derive_puzzle pz g) = treasures pz"
  by (simp_all add: derive_puzzle_def)

lemma and_prefix_sub: "m AND prefix_grid g t \<noteq> 0 \<Longrightarrow> m AND g \<noteq> 0"
proof -
  assume "m AND prefix_grid g t \<noteq> 0"
  then obtain n where "bit (m AND prefix_grid g t) n" by (auto simp: word_nonzero_bit)
  then have "bit (m AND g) n" by (simp add: bit_and_iff bit_prefix_grid)
  then show ?thesis by (auto simp: word_nonzero_bit)
qed

lemma prefix_and_sub: "prefix_grid g t AND m \<noteq> 0 \<Longrightarrow> g AND m \<noteq> 0"
  using and_prefix_sub [of m g t] by (simp add: and.commute)

lemma count_prefix_le:
  "count_set_bits (m AND prefix_grid g t) \<le> count_set_bits (m AND g)"
proof (rule count_set_bits_mono)
  show "(m AND prefix_grid g t) AND (m AND g) = m AND prefix_grid g t"
    by (rule bit_eqI) (auto simp: bit_and_iff bit_prefix_grid)
qed

lemma derived_row_target:
  assumes "0 \<le> r" "r < 8"
  shows "uint (row_wall_counts (derive_puzzle pz g) ! nat r) = count_walls_in_row g r"
proof -
  have n: "nat r < 8" using assms by simp
  have c: "0 \<le> count_walls_in_row g r" "count_walls_in_row g r \<le> 64"
    using count_set_bits_range by (simp_all add: count_walls_in_row_def)
  have "row_wall_counts (derive_puzzle pz g) ! nat r =
      (word_of_int (count_walls_in_row g (int (nat r))) :: u8)"
    using n by (simp add: derive_puzzle_def del: upt_Suc)
  then show ?thesis using assms c by (simp add: uint_word_of_int)
qed

lemma derived_col_target:
  assumes "0 \<le> c" "c < 8"
  shows "uint (col_wall_counts (derive_puzzle pz g) ! nat c) = count_walls_in_col g c"
proof -
  have n: "nat c < 8" using assms by simp
  have b: "0 \<le> count_walls_in_col g c" "count_walls_in_col g c \<le> 64"
    using count_set_bits_range by (simp_all add: count_walls_in_col_def)
  have "col_wall_counts (derive_puzzle pz g) ! nat c =
      (word_of_int (count_walls_in_col g (int (nat c))) :: u8)"
    using n by (simp add: derive_puzzle_def del: upt_Suc)
  then show ?thesis using assms b by (simp add: uint_word_of_int)
qed

lemma derived_row_count:
  assumes "0 \<le> t" "t < 64"
  shows "check_row_count (derive_puzzle pz g) (prefix_grid g t) t"
proof -
  from assms obtain r c where p: "pos_from_slot t = \<lparr>row = r, col = c\<rparr>"
    and rc: "0 \<le> r" "r < 8" "0 \<le> c" "c < 8" "t = r * 8 + c"
    by (rule pos_from_slot_cases)
  have le: "count_walls_in_row (prefix_grid g t) r \<le> count_walls_in_row g r"
    by (simp add: count_walls_in_row_def count_prefix_le)
  have "count_walls_in_row (prefix_grid g t) r = count_walls_in_row g r" if "c = 7"
    using rc that by (intro count_walls_in_row_prefix) simp_all
  then show ?thesis
    using le by (auto simp: check_row_count_def p Let_def derived_row_target [OF rc(1,2)])
qed

lemma derived_col_count:
  assumes "0 \<le> t" "t < 64"
  shows "check_col_count (derive_puzzle pz g) (prefix_grid g t) t"
proof -
  from assms obtain r c where p: "pos_from_slot t = \<lparr>row = r, col = c\<rparr>"
    and rc: "0 \<le> r" "r < 8" "0 \<le> c" "c < 8" "t = r * 8 + c"
    by (rule pos_from_slot_cases)
  have le: "count_walls_in_col (prefix_grid g t) c \<le> count_walls_in_col g c"
    by (simp add: count_walls_in_col_def count_prefix_le)
  have "count_walls_in_col (prefix_grid g t) c = count_walls_in_col g c" if "r = 7"
    using rc that by (intro count_walls_in_col_prefix) simp_all
  then show ?thesis
    using le by (auto simp: check_col_count_def p Let_def derived_col_target [OF rc(3,4)])
qed

lemma cut_63: "cut pz 63 = pz"
  by (simp add: cut_def prefix_grid_63)

lemma gen_path_at:
  "gen_path pz g \<Longrightarrow> 0 \<le> t \<Longrightarrow> t < 64 \<Longrightarrow> gen_constraints_hold (cut pz t) (prefix_grid g t) t"
  by (simp add: gen_path_def gen_path_upto_def)

lemma gen_path_end: "gen_path pz g \<Longrightarrow> gen_constraints_hold pz g 63"
  using gen_path_at [of pz g 63] by (simp add: cut_63 prefix_grid_63)

lemma derived_overlap:
  assumes "check_doesnt_overlap pz g"
  shows "check_doesnt_overlap (derive_puzzle pz g) (prefix_grid g t)"
  using assms prefix_and_sub [of g t "treasures pz"] prefix_and_sub [of g t "monsters pz"]
  by (auto simp: check_doesnt_overlap_def derive_fields)

text \<open>A cell with all its neighbours decided is no dead end of the finished tiling.\<close>

lemma gen_path_no_dead_end:
  assumes "gen_path pz g"
  shows "\<not> is_dead_end pz g x"
proof (cases "in_grid x")
  case True
  define u where "u = decided_at x"
  have u: "0 \<le> u" "u < 64" using decided_at_range [OF True] by (simp_all add: u_def)
  have w: "within u (pos_set 0 x)" "within u (border_of x)"
    using decided_at_within [OF True] by (simp_all add: u_def)
  have "gen_constraints_hold (cut pz u) (prefix_grid g u) u"
    using assms u by (rule gen_path_at)
  then have "check_dead_ends (cut pz u) (prefix_grid g u) u"
    by (simp add: gen_constraints_hold_def)
  then have "\<not> is_dead_end (cut pz u) (prefix_grid g u) x"
    unfolding u_def by (rule decided_at_checks(1) [OF True])
  moreover have "is_dead_end (cut pz u) (prefix_grid g u) x = is_dead_end pz g x"
    by (simp add: is_dead_end_def cut_fields within_and [OF w(1)] within_and [OF w(2)])
  ultimately show ?thesis by simp
next
  case False
  then show ?thesis by (auto simp: is_dead_end_def in_grid_def)
qed

lemma dead_end_of_prefix:
  assumes "is_dead_end (derive_puzzle pz g) (prefix_grid g t) x" "slot_of x \<le> t"
  shows "is_dead_end pz g x"
proof -
  have ig: "in_grid x" using assms(1) by (auto simp: is_dead_end_def in_grid_def split: if_splits)
  have w: "within t (pos_set 0 x)" using ig assms(2) by (rule within_cell)
  have le: "count_set_bits (border_of x AND prefix_grid g t) \<le> count_set_bits (border_of x AND g)"
    by (rule count_prefix_le)
  show ?thesis
    using assms(1) le
    by (auto simp: is_dead_end_def derive_fields within_and [OF w] Let_def split: if_splits)
qed

lemma derived_dead_ends:
  assumes "gen_path pz g" "0 \<le> t" "t < 64"
  shows "check_dead_ends (derive_puzzle pz g) (prefix_grid g t) t"
proof -
  from assms(2,3) obtain r c where p: "pos_from_slot t = \<lparr>row = r, col = c\<rparr>"
    and rc: "0 \<le> r" "r < 8" "0 \<le> c" "c < 8" "t = r * 8 + c"
    by (rule pos_from_slot_cases)
  have no: "\<not> is_dead_end (derive_puzzle pz g) (prefix_grid g t) x" if "slot_of x \<le> t" for x
    using dead_end_of_prefix [OF _ that] gen_path_no_dead_end [OF assms(1)] by blast
  have a: "\<not> is_dead_end (derive_puzzle pz g) (prefix_grid g t) \<lparr>row = r - 1, col = c\<rparr>"
    using rc by (intro no) (simp add: slot_of_def)
  have l: "\<not> is_dead_end (derive_puzzle pz g) (prefix_grid g t) \<lparr>row = r, col = c - 1\<rparr>"
    using rc by (intro no) (simp add: slot_of_def)
  have e: "\<not> is_dead_end (derive_puzzle pz g) (prefix_grid g t) \<lparr>row = r, col = c\<rparr>"
    using rc by (intro no) (simp add: slot_of_def)
  show ?thesis using a l e by (simp add: check_dead_ends_def p Let_def)
qed

text \<open>
  The monster check at slot \<open>t\<close> looks at cells whose neighbours are all up to \<open>t\<close>, so
  the monsters and treasures placed later make no difference to it.
\<close>

lemma invalid_monster_cut:
  assumes "in_grid x \<longrightarrow> within t (pos_set 0 x) \<and> within t (border_of x)"
  shows "is_invalid_monster (derive_puzzle pz g) h x = is_invalid_monster (cut pz t) h x"
proof (cases "in_grid x")
  case True
  with assms have w: "within t (pos_set 0 x)" "within t (border_of x)" by simp_all
  show ?thesis
    by (simp add: is_invalid_monster_def derive_fields cut_fields within_and [OF w(1)]
          within_and [OF w(2)])
next
  case False
  then show ?thesis by (auto simp: is_invalid_monster_def in_grid_def)
qed

lemma derived_monsters:
  assumes "0 \<le> t" "t < 64"
  shows "check_monsters (derive_puzzle pz g) h t = check_monsters (cut pz t) h t"
proof -
  from assms obtain r c where p: "pos_from_slot t = \<lparr>row = r, col = c\<rparr>"
    and rc: "0 \<le> r" "r < 8" "0 \<le> c" "c < 8" "t = r * 8 + c"
    by (rule pos_from_slot_cases)
  have a: "is_invalid_monster (derive_puzzle pz g) h \<lparr>row = r - 1, col = c\<rparr> =
      is_invalid_monster (cut pz t) h \<lparr>row = r - 1, col = c\<rparr>"
    using rc
    by (intro invalid_monster_cut impI conjI within_cell within_border)
       (auto simp: in_grid_def slot_of_def)
  have l: "is_invalid_monster (derive_puzzle pz g) h \<lparr>row = r, col = c - 1\<rparr> =
      is_invalid_monster (cut pz t) h \<lparr>row = r, col = c - 1\<rparr>" if "r = 7"
    using rc that
    by (intro invalid_monster_cut impI conjI within_cell within_border)
       (auto simp: in_grid_def slot_of_def)
  have e: "is_invalid_monster (derive_puzzle pz g) h \<lparr>row = r, col = c\<rparr> =
      is_invalid_monster (cut pz t) h \<lparr>row = r, col = c\<rparr>" if "r = 7" "c = 7"
    using rc that
    by (intro invalid_monster_cut impI conjI within_cell within_border)
       (auto simp: in_grid_def slot_of_def)
  show ?thesis
    using a l e by (auto simp: check_monsters_def p Let_def)
qed

lemma derived_wide_space:
  assumes "check_wide_space (cut pz t) h t" "0 \<le> t" "t < 64"
  shows "check_wide_space (derive_puzzle pz g) h t"
proof -
  have w: "within t (wide_space_mask (pos_from_slot t))"
    using assms(2,3) by (rule within_wide_space)
  show ?thesis
    using assms(1) and_prefix_sub [of "wide_space_neighbors (pos_from_slot t)" "treasures pz" t]
    by (auto simp: check_wide_space_def derive_fields cut_fields within_and [OF w] Let_def
          split: if_splits)
qed

text \<open>
  Where the count of a room's border is the strict one, the whole border is decided.
\<close>

lemma within_walls_mask:
  assumes "strict_check c t" "0 \<le> t" "t < 64"
  shows "within t (walls_mask_of c)"
proof (cases "t = 63")
  case True
  then show ?thesis by (simp add: within_def)
next
  case False
  from assms(2,3) obtain r k where p: "pos_from_slot t = \<lparr>row = r, col = k\<rparr>"
    and rc: "0 \<le> r" "r < 8" "0 \<le> k" "k < 8" "t = r * 8 + k"
    by (rule pos_from_slot_cases)
  have "\<not> (r = 7 \<and> k = 7)" using False rc by auto
  with assms(1) have s: "row c + 2 \<le> r" "col c + 2 \<le> k"
    by (auto simp: strict_check_def p Let_def)
  show ?thesis
    using s rc
    by (simp add: walls_mask_of_def within_pos_set within_zero in_grid_def slot_of_def)
qed

lemma derived_room:
  assumes "\<not> is_invalid_treasure_room pz g x c 63" "0 \<le> t" "t < 64"
  shows "\<not> is_invalid_treasure_room (derive_puzzle pz g) (prefix_grid g t) x c t"
proof -
  from assms(1) have nb: "\<not> room_broken pz g x c"
    and cnt: "count_set_bits (walls_mask_of c AND g) = count_set_bits (walls_mask_of c) - 1"
    by (simp_all add: room_rule strict_check_63)
  have nb': "\<not> room_broken (derive_puzzle pz g) (prefix_grid g t) x c"
    using nb and_prefix_sub [of "room_mask_of c" g t]
    by (auto simp: room_broken_def derive_fields)
  show ?thesis
  proof (cases "strict_check c t")
    case True
    then have "within t (walls_mask_of c)" using assms(2,3) by (rule within_walls_mask)
    then show ?thesis using nb' cnt True by (simp add: room_rule within_and)
  next
    case False
    have "count_set_bits (walls_mask_of c AND prefix_grid g t) \<le>
        count_set_bits (walls_mask_of c AND g)"
      by (rule count_prefix_le)
    then show ?thesis using nb' cnt False by (simp add: room_rule)
  qed
qed

lemma derived_treasure_rooms:
  assumes "check_treasure_rooms pz g 63" "0 \<le> t" "t < 64"
  shows "check_treasure_rooms (derive_puzzle pz g) (prefix_grid g t) t"
proof -
  have "\<not> is_invalid_treasure (derive_puzzle pz g) (prefix_grid g t) x t"
    if "\<not> is_invalid_treasure pz g x 63" for x
    using that derived_room [OF _ assms(2,3)] unfolding is_invalid_treasure_iff by blast
  then show ?thesis
    using assms(1) unfolding check_treasure_rooms_iff derive_fields by blast
qed

text \<open>
  A finished tiling whose prefixes have passed the generator's checks passes, prefix by
  prefix, the solver's checks on the puzzle derived from it.
\<close>

lemma gen_path_path_ok:
  assumes "gen_path pz g"
  shows "path_ok (derive_puzzle pz g) g"
proof -
  have fin: "gen_constraints_hold pz g 63" using assms by (rule gen_path_end)
  have "constraints_hold (derive_puzzle pz g) (prefix_grid g t) t" if t: "0 \<le> t" "t < 64" for t
  proof -
    have at: "gen_constraints_hold (cut pz t) (prefix_grid g t) t"
      using assms t by (rule gen_path_at)
    have 1: "check_doesnt_overlap (derive_puzzle pz g) (prefix_grid g t)"
      using fin by (intro derived_overlap) (simp add: gen_constraints_hold_def)
    have 2: "check_row_count (derive_puzzle pz g) (prefix_grid g t) t"
      using t by (rule derived_row_count)
    have 3: "check_col_count (derive_puzzle pz g) (prefix_grid g t) t"
      using t by (rule derived_col_count)
    have 4: "check_dead_ends (derive_puzzle pz g) (prefix_grid g t) t"
      using assms t by (rule derived_dead_ends)
    have 5: "check_monsters (derive_puzzle pz g) (prefix_grid g t) t"
      using at t by (simp add: derived_monsters gen_constraints_hold_def)
    have 6: "check_wide_space (derive_puzzle pz g) (prefix_grid g t) t"
      using at t by (intro derived_wide_space) (simp_all add: gen_constraints_hold_def)
    have 7: "check_treasure_rooms (derive_puzzle pz g) (prefix_grid g t) t"
      using fin t by (intro derived_treasure_rooms) (simp_all add: gen_constraints_hold_def)
    show ?thesis using 1 2 3 4 5 6 7 by (simp add: constraints_hold_def)
  qed
  then show ?thesis by (simp add: path_ok_def)
qed

section \<open>What the generator has checked when it completes a tiling\<close>

text \<open>
  At the head of every iteration the tiles beyond the current slot are empty, and every
  prefix of the tiling below the current slot has passed the generator's checks with
  the monsters and treasures of that prefix.
\<close>

definition clear_above :: "(int \<Rightarrow> Tile) \<Rightarrow> int \<Rightarrow> bool" where
  "clear_above tiles s = (\<forall>i. s < i \<and> i < 64 \<longrightarrow> tiles i = EMPTY)"

definition gen_inv :: "gen_state \<Rightarrow> bool" where
  "gen_inv st =
     (tiles_agree st \<and> - 1 \<le> g_slot st \<and> g_slot st \<le> 63 \<and>
      clear_above (puzzle_tiles st) (g_slot st) \<and>
      gen_path_upto (g_puzzle st) (g_solution st) (g_slot st))"

lemma gen_backtrack_clear:
  "gen_backtrack tiles s < i \<Longrightarrow> i \<le> s \<Longrightarrow> tiles i = EMPTY"
proof (induction tiles s rule: gen_backtrack.induct)
  case (1 tiles s)
  show ?case
  proof (cases "s \<ge> 0 \<and> tiles s = EMPTY")
    case True
    then have "gen_backtrack tiles s = gen_backtrack tiles (s - 1)"
      by (subst gen_backtrack_unfold) simp
    with True 1 show ?thesis by (cases "i = s") auto
  next
    case False
    then have "gen_backtrack tiles s = s" by (subst gen_backtrack_unfold) auto
    with 1 show ?thesis by simp
  qed
qed

lemma clear_above_backtrack:
  assumes "clear_above tiles s"
  shows "clear_above tiles (gen_backtrack tiles s)"
  unfolding clear_above_def
proof (intro allI impI)
  fix i assume i: "gen_backtrack tiles s < i \<and> i < 64"
  show "tiles i = EMPTY"
  proof (cases "i \<le> s")
    case True
    with i show ?thesis by (intro gen_backtrack_clear) simp_all
  next
    case False
    with i assms show ?thesis by (simp add: clear_above_def)
  qed
qed

lemma prefix_grid_slot_set: "t < s \<Longrightarrow> prefix_grid (slot_set g s) t = prefix_grid g t"
  by (rule bit_eqI) (auto simp: bit_prefix_grid bit_slot_set)

lemma prefix_grid_slot_unset: "t < s \<Longrightarrow> prefix_grid (slot_unset g s) t = prefix_grid g t"
  by (rule bit_eqI) (auto simp: bit_prefix_grid bit_slot_unset)

lemma cycle_tile_below:
  assumes "t < g_slot st"
  shows "cut (g_puzzle (cycle_tile st)) t = cut (g_puzzle st) t"
    and "prefix_grid (g_solution (cycle_tile st)) t = prefix_grid (g_solution st) t"
  using assms
  by (cases "puzzle_tiles st (g_slot st)";
      simp add: cycle_tile_def Let_def cut_def prefix_grid_slot_set prefix_grid_slot_unset)+

lemma cycle_tile_path:
  "gen_path_upto (g_puzzle st) (g_solution st) (g_slot st) \<Longrightarrow>
   gen_path_upto (g_puzzle (cycle_tile st)) (g_solution (cycle_tile st)) (g_slot st)"
  by (simp add: gen_path_upto_def cycle_tile_below)

lemma agree_within:
  assumes "tiles_agree st" "clear_above (puzzle_tiles st) s"
  shows "within s (g_solution st)" "within s (monsters (g_puzzle st))"
    "within s (treasures (g_puzzle st))"
proof -
  have tag: "puzzle_tiles st (63 - int n) \<noteq> EMPTY"
    if "bit (g_solution st) n \<or> bit (monsters (g_puzzle st)) n \<or> bit (treasures (g_puzzle st)) n"
    for n
  proof -
    from that have n: "n < 64" by (auto dest: bit_imp_le_length)
    then have i: "63 - int n \<in> {0..63}" and k: "nat (63 - (63 - int n)) = n"
      and r: "0 \<le> 63 - int n" "63 - int n < 64" by auto
    from assms(1) i have
      "(slot_is_set (g_solution st) (63 - int n) \<noteq> 0) = (puzzle_tiles st (63 - int n) = WALL)"
      "(slot_is_set (monsters (g_puzzle st)) (63 - int n) \<noteq> 0) =
         (puzzle_tiles st (63 - int n) = MONSTER)"
      "(slot_is_set (treasures (g_puzzle st)) (63 - int n) \<noteq> 0) =
         (puzzle_tiles st (63 - int n) = TREASURE)"
      unfolding tiles_agree_def by blast+
    then show ?thesis using r that by (auto simp: slot_is_set_iff k)
  qed
  have le: "63 - s \<le> int n"
    if "bit (g_solution st) n \<or> bit (monsters (g_puzzle st)) n \<or> bit (treasures (g_puzzle st)) n"
    for n
  proof (rule ccontr)
    assume "\<not> 63 - s \<le> int n"
    then have "s < 63 - int n" "63 - int n < 64" by simp_all
    with assms(2) have "puzzle_tiles st (63 - int n) = EMPTY" by (simp add: clear_above_def)
    with tag [OF that] show False by simp
  qed
  show "within s (g_solution st)" "within s (monsters (g_puzzle st))"
    "within s (treasures (g_puzzle st))"
    using le by (auto simp: within_def)
qed

lemma cut_within:
  "within s (monsters pz) \<Longrightarrow> within s (treasures pz) \<Longrightarrow> cut pz s = pz"
  by (simp add: cut_def prefix_grid_within)

lemma gen_path_upto_mono: "gen_path_upto pz g s \<Longrightarrow> j \<le> s \<Longrightarrow> gen_path_upto pz g j"
  by (simp add: gen_path_upto_def)

lemma gen_path_upto_Suc:
  assumes "gen_path_upto pz g s" "gen_constraints_hold pz g s"
    "within s g" "within s (monsters pz)" "within s (treasures pz)"
  shows "gen_path_upto pz g (s + 1)"
  unfolding gen_path_upto_def
proof (intro ballI impI)
  fix t :: int assume t: "t \<in> {0..63}" "t < s + 1"
  show "gen_constraints_hold (cut pz t) (prefix_grid g t) t"
  proof (cases "t = s")
    case True
    with assms show ?thesis by (simp add: cut_within prefix_grid_within)
  next
    case False
    with t assms(1) show ?thesis by (simp add: gen_path_upto_def)
  qed
qed

text \<open>The state after the \<open>switch\<close>, before the checks.\<close>

lemma cycle_tile_inv:
  assumes "gen_inv st" "0 \<le> g_slot st"
  shows "tiles_agree (cycle_tile st)"
    and "clear_above (puzzle_tiles (cycle_tile st)) (g_slot st)"
    and "gen_path_upto (g_puzzle (cycle_tile st)) (g_solution (cycle_tile st)) (g_slot st)"
    and "within (g_slot st) (g_solution (cycle_tile st))"
    and "within (g_slot st) (monsters (g_puzzle (cycle_tile st)))"
    and "within (g_slot st) (treasures (g_puzzle (cycle_tile st)))"
proof -
  have s: "g_slot st < 64" using assms(1) by (simp add: gen_inv_def)
  show a: "tiles_agree (cycle_tile st)"
    using assms s by (intro cycle_tile_agree) (simp_all add: gen_inv_def)
  show c: "clear_above (puzzle_tiles (cycle_tile st)) (g_slot st)"
    using assms(1) by (simp add: gen_inv_def clear_above_def cycle_tile_tiles)
  show "gen_path_upto (g_puzzle (cycle_tile st)) (g_solution (cycle_tile st)) (g_slot st)"
    using assms(1) by (intro cycle_tile_path) (simp add: gen_inv_def)
  show "within (g_slot st) (g_solution (cycle_tile st))"
    "within (g_slot st) (monsters (g_puzzle (cycle_tile st)))"
    "within (g_slot st) (treasures (g_puzzle (cycle_tile st)))"
    using agree_within [OF a c] by simp_all
qed

lemma gen_body_puzzle: "g_puzzle (gen_body mx st) = g_puzzle (cycle_tile st)"
  by (simp add: gen_body_def Let_def)

lemma gen_body_slot:
  "g_slot (gen_body mx st) =
     (if gen_constraints_hold (g_puzzle (cycle_tile st)) (g_solution (cycle_tile st)) (g_slot st)
      then (if g_slot st < 63 then g_slot st + 1
            else if puzzle_i st < mx
                 then gen_backtrack (puzzle_tiles (cycle_tile st)) (g_slot st)
                 else g_slot st)
      else gen_backtrack (puzzle_tiles (cycle_tile st)) (g_slot st))"
  by (simp add: gen_body_def Let_def cycle_tile_fields)

lemma gen_body_inv:
  assumes "gen_inv st" "0 \<le> g_slot st"
  shows "gen_inv (gen_body mx st)"
proof -
  define s where "s = g_slot st"
  define st1 where "st1 = cycle_tile st"
  define ok where "ok = gen_constraints_hold (g_puzzle st1) (g_solution st1) s"
  define j where "j = gen_backtrack (puzzle_tiles st1) s"
  have s: "0 \<le> s" "s \<le> 63" using assms by (simp_all add: gen_inv_def s_def)
  note c = cycle_tile_inv [OF assms, folded st1_def s_def]
  have jr: "- 1 \<le> j" "j \<le> s"
    using gen_backtrack_range [of s "puzzle_tiles st1"] s by (simp_all add: j_def)
  have sl: "g_slot (gen_body mx st) =
      (if ok then (if s < 63 then s + 1 else if puzzle_i st < mx then j else s) else j)"
    by (simp add: gen_body_slot ok_def st1_def s_def j_def)
  have f: "puzzle_tiles (gen_body mx st) = puzzle_tiles st1"
    "g_solution (gen_body mx st) = g_solution st1" "g_puzzle (gen_body mx st) = g_puzzle st1"
    by (simp_all add: gen_body_grids gen_body_puzzle st1_def)
  have a: "tiles_agree (gen_body mx st)"
    using c(1) by (simp add: tiles_agree_def f)
  have cj: "clear_above (puzzle_tiles st1) j"
    unfolding j_def using c(2) by (rule clear_above_backtrack)
  have pj: "gen_path_upto (g_puzzle st1) (g_solution st1) j"
    using c(3) jr(2) by (rule gen_path_upto_mono)
  have cs: "clear_above (puzzle_tiles st1) (s + 1)"
    using c(2) by (simp add: clear_above_def)
  have ps: "gen_path_upto (g_puzzle st1) (g_solution st1) (s + 1)" if ok
    using c(3) that c(4,5,6) unfolding ok_def by (rule gen_path_upto_Suc)
  show ?thesis
    unfolding gen_inv_def f sl using a s jr cj pj cs ps c(2,3)
    by (auto simp: f)
qed

lemma gen_inv_init: "gen_inv (gen_init buf)"
proof -
  have "tiles_agree (gen_init buf)" by (rule tiles_agree_init)
  then show ?thesis
    by (simp add: gen_inv_def gen_init_def clear_above_def gen_path_upto_def)
qed

lemma gen_steps_inv: "gen_inv st \<Longrightarrow> gen_inv (gen_steps mx n st)"
  by (induction n arbitrary: st) (simp_all add: gen_body_inv)

text \<open>
  When the checks pass at slot 63 the whole tiling has passed them, prefix by prefix.
\<close>

lemma gen_inv_complete:
  assumes "gen_inv st" "g_slot st = 63"
    "gen_constraints_hold (g_puzzle (cycle_tile st)) (g_solution (cycle_tile st)) 63"
  shows "gen_path (g_puzzle (cycle_tile st)) (g_solution (cycle_tile st))"
proof -
  have s: "0 \<le> g_slot st" using assms(2) by simp
  note c = cycle_tile_inv [OF assms(1) s, unfolded assms(2)]
  have "gen_path_upto (g_puzzle (cycle_tile st)) (g_solution (cycle_tile st)) (63 + 1)"
    using c(3) assms(3) c(4,5,6) by (rule gen_path_upto_Suc)
  then show ?thesis by (simp add: gen_path_def)
qed

section \<open>The records that the generator stores\<close>

definition gen_running :: "gen_state \<Rightarrow> bool" where
  "gen_running st = (0 \<le> g_slot st \<and> g_slot st < 64 \<and> \<not> returned st)"

lemma gen_steps_Suc:
  "gen_steps mx (Suc n) st = (if gen_running st then gen_steps mx n (gen_body mx st) else st)"
  by (simp add: gen_running_def)

lemma gen_steps_stop: "\<not> gen_running st \<Longrightarrow> gen_steps mx n st = st"
  by (cases n) (simp_all add: gen_steps_Suc del: gen_steps.simps(2))

lemma gen_loop_running:
  "gen_loop mx st = (if gen_running st then gen_loop mx (gen_body mx st) else st)"
  by (subst gen_loop.simps) (simp add: gen_running_def)

lemma gen_steps_Suc_end:
  "gen_steps mx (Suc n) st =
     (if gen_running (gen_steps mx n st) then gen_body mx (gen_steps mx n st)
      else gen_steps mx n st)"
proof (induction n arbitrary: st)
  case 0
  show ?case by (simp add: gen_steps_Suc del: gen_steps.simps(2))
next
  case (Suc n)
  show ?case
  proof (cases "gen_running st")
    case True
    then have "gen_steps mx (Suc (Suc n)) st = gen_steps mx (Suc n) (gen_body mx st)"
      by (simp add: gen_steps_Suc del: gen_steps.simps)
    also have "\<dots> = (if gen_running (gen_steps mx n (gen_body mx st))
      then gen_body mx (gen_steps mx n (gen_body mx st)) else gen_steps mx n (gen_body mx st))"
      by (rule Suc.IH)
    also have "gen_steps mx n (gen_body mx st) = gen_steps mx (Suc n) st"
      using True by (simp add: gen_steps_Suc del: gen_steps.simps)
    finally show ?thesis .
  next
    case False
    then have "gen_steps mx k st = st" for k by (rule gen_steps_stop)
    with False show ?thesis by (simp del: gen_steps.simps)
  qed
qed

lemma gen_loop_steps: "\<exists>n. gen_loop mx st = gen_steps mx n st"
proof (induction mx st rule: gen_loop.induct)
  case (1 mx st)
  show ?case
  proof (cases "gen_running st")
    case True
    then have "0 \<le> g_slot st \<and> g_slot st < 64 \<and> \<not> returned st" by (simp add: gen_running_def)
    with 1 obtain n where "gen_loop mx (gen_body mx st) = gen_steps mx n (gen_body mx st)"
      by blast
    with True have "gen_loop mx st = gen_steps mx (Suc n) st"
      by (subst gen_loop_running) (simp add: gen_steps_Suc del: gen_steps.simps)
    then show ?thesis ..
  next
    case False
    then have "gen_loop mx st = gen_steps mx 0 st" by (subst gen_loop_running) simp
    then show ?thesis ..
  qed
qed

text \<open>
  \<open>emitted_at mx buf n gp\<close>: iteration \<open>n\<close> of \<open>generate buf mx\<close> completes a tiling
  that passes the checks at slot 63 while the buffer has room, and \<open>gp\<close> is the record
  that the iteration builds from it and stores.
\<close>

definition emitted_at :: "u64 \<Rightarrow> GeneratedPuzzle list \<Rightarrow> nat \<Rightarrow> GeneratedPuzzle \<Rightarrow> bool" where
  "emitted_at mx buf n gp =
     (let st0 = gen_steps mx n (gen_init buf);
          st1 = cycle_tile st0;
          valid_puzzle = derive_puzzle (g_puzzle st1) (g_solution st1)
      in \<not> returned st0 \<and> g_slot st0 = 63 \<and>
         gen_constraints_hold (g_puzzle st1) (g_solution st1) 63 \<and> puzzle_i st0 < mx \<and>
         gp = \<lparr>gp_puzzle = valid_puzzle,
               num_solutions = fst (solve valid_puzzle (replicate 128 0) 128)\<rparr>)"

lemma gen_body_stores:
  "puzzles (gen_body mx st) =
     (if gen_constraints_hold (g_puzzle (cycle_tile st)) (g_solution (cycle_tile st)) (g_slot st) \<and>
         \<not> g_slot st < 63 \<and> puzzle_i st < mx
      then (puzzles st)[unat (puzzle_i st) :=
             \<lparr>gp_puzzle = derive_puzzle (g_puzzle (cycle_tile st)) (g_solution (cycle_tile st)),
              num_solutions =
                fst (solve (derive_puzzle (g_puzzle (cycle_tile st)) (g_solution (cycle_tile st)))
                       (replicate 128 0) 128)\<rparr>]
      else puzzles st)"
  "puzzle_i (gen_body mx st) =
     (if gen_constraints_hold (g_puzzle (cycle_tile st)) (g_solution (cycle_tile st)) (g_slot st) \<and>
         \<not> g_slot st < 63 \<and> puzzle_i st < mx
      then puzzle_i st + 1 else puzzle_i st)"
  "returned (gen_body mx st) =
     (returned st \<or>
      (gen_constraints_hold (g_puzzle (cycle_tile st)) (g_solution (cycle_tile st)) (g_slot st) \<and>
       \<not> g_slot st < 63 \<and> \<not> puzzle_i st < mx))"
  by (simp_all add: gen_body_def Let_def cycle_tile_fields)

definition stored_emitted :: "u64 \<Rightarrow> GeneratedPuzzle list \<Rightarrow> gen_state \<Rightarrow> bool" where
  "stored_emitted mx buf st =
     (puzzle_i st \<le> mx \<and> length (puzzles st) = length buf \<and>
      (\<forall>k < unat (puzzle_i st). \<exists>n. emitted_at mx buf n (puzzles st ! k)))"

lemma gen_steps_stored:
  assumes "length buf = unat mx"
  shows "stored_emitted mx buf (gen_steps mx m (gen_init buf))"
proof (induction m)
  case 0
  show ?case by (simp add: stored_emitted_def gen_init_def)
next
  case (Suc m)
  define r where "r = gen_steps mx m (gen_init buf)"
  define st1 where "st1 = cycle_tile r"
  define gp where "gp = \<lparr>gp_puzzle = derive_puzzle (g_puzzle st1) (g_solution st1),
     num_solutions = fst (solve (derive_puzzle (g_puzzle st1) (g_solution st1))
                            (replicate 128 0) 128)\<rparr>"
  define store where "store = (gen_constraints_hold (g_puzzle st1) (g_solution st1) (g_slot r) \<and>
     \<not> g_slot r < 63 \<and> puzzle_i r < mx)"
  have ih: "puzzle_i r \<le> mx" "length (puzzles r) = length buf"
    "\<And>k. k < unat (puzzle_i r) \<Longrightarrow> \<exists>n. emitted_at mx buf n (puzzles r ! k)"
    using Suc by (simp_all add: stored_emitted_def r_def)
  show ?case
  proof (cases "gen_running r")
    case False
    then have "gen_steps mx (Suc m) (gen_init buf) = r"
      unfolding gen_steps_Suc_end r_def [symmetric] by simp
    then show ?thesis using Suc by (simp add: r_def)
  next
    case True
    then have step: "gen_steps mx (Suc m) (gen_init buf) = gen_body mx r"
      unfolding gen_steps_Suc_end r_def [symmetric] by simp
    from True have run: "0 \<le> g_slot r" "g_slot r < 64" "\<not> returned r"
      by (simp_all add: gen_running_def)
    have ps: "puzzles (gen_body mx r) =
        (if store then (puzzles r)[unat (puzzle_i r) := gp] else puzzles r)"
      "puzzle_i (gen_body mx r) = (if store then puzzle_i r + 1 else puzzle_i r)"
      unfolding store_def st1_def gp_def by (rule gen_body_stores)+
    show ?thesis
    proof (cases store)
      case False
      then have "puzzles (gen_body mx r) = puzzles r" "puzzle_i (gen_body mx r) = puzzle_i r"
        using ps by simp_all
      then show ?thesis using ih unfolding step stored_emitted_def by simp
    next
      case True
      then have b: "puzzles (gen_body mx r) = (puzzles r)[unat (puzzle_i r) := gp]"
        "puzzle_i (gen_body mx r) = puzzle_i r + 1"
        using ps by simp_all
      have lt: "puzzle_i r < mx" using True by (simp add: store_def)
      then have le: "puzzle_i r + 1 \<le> mx" by (rule inc_le)
      have "unat (puzzle_i r) < unat mx" using lt by (simp add: word_less_nat_alt)
      moreover have "unat mx < 2 ^ 64" by (rule order_less_le_trans [OF unsigned_less]) simp
      ultimately have "unat (puzzle_i r) + unat (1 :: u64) < 2 ^ LENGTH(64)" by simp
      then have nw: "unat (puzzle_i r + 1) = Suc (unat (puzzle_i r))"
        by (simp only: unat_add_lem) simp
      have inb: "unat (puzzle_i r) < length (puzzles r)"
        using lt assms ih(2) by (simp add: word_less_nat_alt)
      have s63: "g_slot r = 63" using True run by (simp add: store_def)
      have e: "emitted_at mx buf m gp"
        using True run s63
        by (simp add: emitted_at_def Let_def r_def [symmetric] st1_def [symmetric] gp_def store_def)
      have "\<exists>n. emitted_at mx buf n ((puzzles r)[unat (puzzle_i r) := gp] ! k)"
        if "k < Suc (unat (puzzle_i r))" for k
      proof (cases "k = unat (puzzle_i r)")
        case True
        with inb e show ?thesis by auto
      next
        case False
        with that have "k < unat (puzzle_i r)" by simp
        with ih(3) False show ?thesis by simp
      qed
      then show ?thesis
        unfolding step stored_emitted_def b nw using le ih(2) by simp
    qed
  qed
qed

text \<open>
  A record built from a complete tiling has a count of at least 1, and \<open>solve\<close> finds
  the tiling's walls whenever its buffer holds all the solutions.
\<close>

lemma solve_stores_found:
  assumes "path_ok pz G" "length b = unat c" "fst (solve pz b c) \<le> c"
  shows "G \<in> set (stored_solutions pz b c)"
proof -
  define n where "n = unat (fst (solve pz b c))"
  define out where "out = snd (solve pz b c)"
  have len: "length out = unat c"
    using solve_lockstep [OF assms(2) assms(2), of pz]
    by (simp add: out_def lockstep_def solve_def Let_def)
  have nc: "n \<le> unat c" using assms(3) by (simp add: n_def word_le_nat_alt)
  from solve_finds [OF assms(1,2)] obtain k where k: "k < n" "k < unat c \<longrightarrow> out ! k = G"
    by (auto simp: n_def out_def)
  have "min n (unat c) = n" using nc by simp
  then have st: "stored_solutions pz b c = take n out"
    by (simp add: stored_solutions_def n_def out_def case_prod_beta)
  have "k < length (take n out)" "take n out ! k = G"
    using k nc len by simp_all
  then show ?thesis unfolding st by (metis nth_mem)
qed

lemma emitted_solvable:
  assumes "emitted_at mx buf n gp"
  shows "1 \<le> unat (num_solutions gp)"
    and "length b = unat c \<Longrightarrow> fst (solve (gp_puzzle gp) b c) \<le> c \<Longrightarrow>
         g_solution (cycle_tile (gen_steps mx n (gen_init buf)))
           \<in> set (stored_solutions (gp_puzzle gp) b c)"
    and "length b = unat c \<Longrightarrow>
         \<exists>j < unat (fst (solve (gp_puzzle gp) b c)).
            j < unat c \<longrightarrow> snd (solve (gp_puzzle gp) b c) ! j =
              g_solution (cycle_tile (gen_steps mx n (gen_init buf)))"
proof -
  define st0 where "st0 = gen_steps mx n (gen_init buf)"
  define st1 where "st1 = cycle_tile st0"
  define G where "G = g_solution st1"
  define pz where "pz = derive_puzzle (g_puzzle st1) G"
  from assms have e: "g_slot st0 = 63" "gen_constraints_hold (g_puzzle st1) G 63"
    "gp_puzzle gp = pz" "num_solutions gp = fst (solve pz (replicate 128 0) 128)"
    by (simp_all add: emitted_at_def Let_def st0_def st1_def G_def pz_def)
  have "gen_inv st0" unfolding st0_def by (rule gen_steps_inv) (rule gen_inv_init)
  then have "gen_path (g_puzzle st1) G"
    using e(1,2) unfolding st1_def G_def by (rule gen_inv_complete)
  then have p: "path_ok pz G" unfolding pz_def by (rule gen_path_path_ok)
  have "\<exists>k. k < unat (fst (solve pz (replicate 128 0) 128)) \<and>
      (k < unat (128 :: u64) \<longrightarrow> snd (solve pz (replicate 128 0) 128) ! k = G)"
    using p by (rule solve_finds) simp
  then show "1 \<le> unat (num_solutions gp)" unfolding e(4) by auto
  show "G \<in> set (stored_solutions (gp_puzzle gp) b c)"
    if "length b = unat c" "fst (solve (gp_puzzle gp) b c) \<le> c"
    using p that unfolding e(3) by (rule solve_stores_found)
  show "\<exists>j < unat (fst (solve (gp_puzzle gp) b c)).
      j < unat c \<longrightarrow> snd (solve (gp_puzzle gp) b c) ! j = G"
    if "length b = unat c"
    using solve_finds [OF p that] unfolding e(3) by blast
qed

section \<open>The generator stores a first puzzle\<close>

text \<open>
  The tiling with a wall in every slot passes the generator's checks at every prefix, and
  the search reaches it unless it has stored a puzzle before: \<open>walls_ahead st\<close> says
  that nothing is stored yet and that the all-walls tiling is still to come, either
  because the current slot is fresh above a run of walls, or because some slot above a
  run of walls holds a treasure or a monster, the two tiles tried before the wall.
\<close>

definition walls_below :: "(int \<Rightarrow> Tile) \<Rightarrow> int \<Rightarrow> bool" where
  "walls_below tiles j = (\<forall>i. 0 \<le> i \<and> i < j \<longrightarrow> tiles i = WALL)"

definition walls_ahead :: "gen_state \<Rightarrow> bool" where
  "walls_ahead st =
     (puzzle_i st = 0 \<and> \<not> returned st \<and> 0 \<le> g_slot st \<and>
      ((puzzle_tiles st (g_slot st) = EMPTY \<and> walls_below (puzzle_tiles st) (g_slot st)) \<or>
       (\<exists>j. 0 \<le> j \<and> j \<le> g_slot st \<and>
            (puzzle_tiles st j = TREASURE \<or> puzzle_tiles st j = MONSTER) \<and>
            walls_below (puzzle_tiles st) j)))"

lemma gen_backtrack_ge:
  "0 \<le> j \<Longrightarrow> j \<le> s \<Longrightarrow> tiles j \<noteq> EMPTY \<Longrightarrow> j \<le> gen_backtrack tiles s"
proof (induction tiles s rule: gen_backtrack.induct)
  case (1 tiles s)
  show ?case
  proof (cases "s \<ge> 0 \<and> tiles s = EMPTY")
    case True
    then have "gen_backtrack tiles s = gen_backtrack tiles (s - 1)"
      by (subst gen_backtrack_unfold) simp
    moreover have "j \<noteq> s" using True 1(4) by auto
    ultimately show ?thesis using True 1 by auto
  next
    case False
    then have "gen_backtrack tiles s = s" by (subst gen_backtrack_unfold) auto
    with 1 show ?thesis by simp
  qed
qed

lemma wall_in_full_prefix:
  assumes "in_grid x" "slot_of x \<le> s"
  shows "pos_set 0 x AND prefix_grid (- 1) s \<noteq> 0"
proof -
  have "pos_bit x < 64" using assms(1) by (auto simp: in_grid_def pos_bit_def)
  then have "bit (pos_set 0 x AND prefix_grid (- 1) s) (pos_bit x)"
    using assms by (simp add: bit_and_iff bit_pos_set bit_prefix_grid pos_bit_slot_of)
  then show ?thesis by (auto simp: word_nonzero_bit)
qed

lemma all_walls_accepted:
  assumes "0 \<le> s" "s < 64" "monsters pz = 0" "treasures pz = 0"
  shows "gen_constraints_hold pz (prefix_grid (- 1) s) s"
proof -
  from assms(1,2) obtain r c where p: "pos_from_slot s = \<lparr>row = r, col = c\<rparr>"
    and rc: "0 \<le> r" "r < 8" "0 \<le> c" "c < 8" "s = r * 8 + c"
    by (rule pos_from_slot_cases)
  have nd: "\<not> is_dead_end pz (prefix_grid (- 1) s) x" if "slot_of x \<le> s" for x
  proof (cases "in_grid x")
    case True
    then have "pos_set 0 x AND prefix_grid (- 1) s \<noteq> 0" using that by (rule wall_in_full_prefix)
    then show ?thesis by (simp add: is_dead_end_def)
  next
    case False
    then show ?thesis by (auto simp: is_dead_end_def in_grid_def)
  qed
  have nm: "\<not> is_invalid_monster pz g x" for g x
    by (simp add: is_invalid_monster_def assms(3))
  have 1: "check_doesnt_overlap pz (prefix_grid (- 1) s)"
    by (simp add: check_doesnt_overlap_def assms)
  have a: "\<not> is_dead_end pz (prefix_grid (- 1) s) \<lparr>row = r - 1, col = c\<rparr>"
    using rc by (intro nd) (simp add: slot_of_def)
  have l: "\<not> is_dead_end pz (prefix_grid (- 1) s) \<lparr>row = r, col = c - 1\<rparr>"
    using rc by (intro nd) (simp add: slot_of_def)
  have e: "\<not> is_dead_end pz (prefix_grid (- 1) s) \<lparr>row = r, col = c\<rparr>"
    using rc by (intro nd) (simp add: slot_of_def)
  have 2: "check_dead_ends pz (prefix_grid (- 1) s) s"
    using a l e by (simp add: check_dead_ends_def p Let_def)
  have 3: "check_monsters pz (prefix_grid (- 1) s) s"
    by (simp add: check_monsters_def Let_def nm)
  have ig: "in_grid \<lparr>row = r, col = c\<rparr>" using rc by (simp add: in_grid_def)
  have "pos_bit \<lparr>row = r, col = c\<rparr> < 64" using rc by (auto simp: pos_bit_def)
  then have "bit (wide_space_mask \<lparr>row = r, col = c\<rparr> AND prefix_grid (- 1) s)
      (pos_bit \<lparr>row = r, col = c\<rparr>)"
    using ig rc
    by (simp add: bit_and_iff wide_space_mask_def bit_pos_set bit_prefix_grid pos_bit_slot_of
          slot_of_def)
  then have "wide_space_mask \<lparr>row = r, col = c\<rparr> AND prefix_grid (- 1) s \<noteq> 0"
    by (auto simp: word_nonzero_bit)
  then have 4: "check_wide_space pz (prefix_grid (- 1) s) s"
    by (simp add: check_wide_space_def p Let_def)
  have 5: "check_treasure_rooms pz (prefix_grid (- 1) s) s"
    by (simp add: check_treasure_rooms_def assms(4))
  show ?thesis
    using 1 2 3 4 5 by (simp add: gen_constraints_hold_def Let_def nm)
qed

lemma agree_all_walls:
  assumes "tiles_agree st" "0 \<le> s" "s < 64" "walls_below (puzzle_tiles st) (s + 1)"
    "clear_above (puzzle_tiles st) s"
  shows "g_solution st = prefix_grid (- 1) s" "monsters (g_puzzle st) = 0"
    "treasures (g_puzzle st) = 0"
proof -
  have tag: "bit (g_solution st) n = (63 - s \<le> int n) \<and> \<not> bit (monsters (g_puzzle st)) n \<and>
      \<not> bit (treasures (g_puzzle st)) n" if n: "n < 64" for n
  proof -
    from n have i: "63 - int n \<in> {0..63}" and k: "nat (63 - (63 - int n)) = n"
      and r: "0 \<le> 63 - int n" "63 - int n < 64" by auto
    from assms(1) i have
      "(slot_is_set (g_solution st) (63 - int n) \<noteq> 0) = (puzzle_tiles st (63 - int n) = WALL)"
      "(slot_is_set (monsters (g_puzzle st)) (63 - int n) \<noteq> 0) =
         (puzzle_tiles st (63 - int n) = MONSTER)"
      "(slot_is_set (treasures (g_puzzle st)) (63 - int n) \<noteq> 0) =
         (puzzle_tiles st (63 - int n) = TREASURE)"
      unfolding tiles_agree_def by blast+
    then have b: "bit (g_solution st) n = (puzzle_tiles st (63 - int n) = WALL)"
      "bit (monsters (g_puzzle st)) n = (puzzle_tiles st (63 - int n) = MONSTER)"
      "bit (treasures (g_puzzle st)) n = (puzzle_tiles st (63 - int n) = TREASURE)"
      using r by (simp_all add: slot_is_set_iff k)
    show ?thesis
    proof (cases "63 - int n \<le> s")
      case True
      with assms(4) r have "puzzle_tiles st (63 - int n) = WALL" by (simp add: walls_below_def)
      with True show ?thesis by (simp add: b)
    next
      case False
      with assms(5) r have "puzzle_tiles st (63 - int n) = EMPTY" by (simp add: clear_above_def)
      with False show ?thesis by (simp add: b)
    qed
  qed
  show "g_solution st = prefix_grid (- 1) s"
  proof (rule bit_eqI)
    fix n assume "possible_bit TYPE(u64) n"
    then have "n < 64" by (simp add: possible_bit_def)
    then show "bit (g_solution st) n = bit (prefix_grid (- 1) s) n"
      using tag [of n] by (simp add: bit_prefix_grid)
  qed
  show "monsters (g_puzzle st) = 0"
    using tag by (intro bit_eqI) (simp add: possible_bit_def)
  show "treasures (g_puzzle st) = 0"
    using tag by (intro bit_eqI) (simp add: possible_bit_def)
qed

lemma gen_body_first:
  assumes "gen_inv st" "walls_ahead st"
  shows "puzzle_i (gen_body 1 st) = 1 \<or> walls_ahead (gen_body 1 st)"
proof -
  define s where "s = g_slot st"
  define st1 where "st1 = cycle_tile st"
  define tiles where "tiles = puzzle_tiles st"
  define tiles1 where "tiles1 = puzzle_tiles st1"
  define ok where "ok = gen_constraints_hold (g_puzzle st1) (g_solution st1) s"
  define b where "b = gen_backtrack tiles1 s"
  have s: "0 \<le> s" "s < 64" using assms by (simp_all add: gen_inv_def walls_ahead_def s_def)
  have i0: "puzzle_i st = 0" "\<not> returned st" using assms(2) by (simp_all add: walls_ahead_def)
  note c = cycle_tile_inv [OF assms(1) s(1) [unfolded s_def], folded st1_def s_def tiles1_def]
  have t1: "tiles1 = tiles(s := next_tile (tiles s))"
    by (simp add: tiles1_def st1_def cycle_tile_tiles tiles_def s_def)
  have f: "puzzle_tiles (gen_body 1 st) = tiles1"
    by (simp add: gen_body_grids tiles1_def st1_def)
  have sl: "g_slot (gen_body 1 st) = (if ok then (if s < 63 then s + 1 else b) else b)"
    by (simp add: gen_body_slot ok_def st1_def s_def b_def tiles1_def i0)
  have pi: "puzzle_i (gen_body 1 st) = (if ok \<and> \<not> s < 63 then 1 else 0)"
    "returned (gen_body 1 st) = False"
    by (simp_all add: gen_body_stores ok_def st1_def s_def i0)
  from assms(2) consider
      (fresh) "tiles s = EMPTY" "walls_below tiles s"
    | (here) "tiles s = TREASURE" "walls_below tiles s"
    | (turn) "tiles s = MONSTER" "walls_below tiles s"
    | (below) j where "0 \<le> j" "j < s" "tiles j = TREASURE \<or> tiles j = MONSTER"
        "walls_below tiles j"
    unfolding walls_ahead_def s_def [symmetric] tiles_def [symmetric]
    by (metis order_le_less)
  then have "(walls_below tiles1 (s + 1) \<and> ok) \<or>
      (\<exists>j. 0 \<le> j \<and> j \<le> s \<and> (tiles1 j = TREASURE \<or> tiles1 j = MONSTER) \<and> walls_below tiles1 j)"
  proof cases
    case fresh
    then have "tiles1 s = TREASURE" "walls_below tiles1 s"
      by (simp_all add: t1 walls_below_def)
    with s show ?thesis by blast
  next
    case here
    then have "tiles1 s = MONSTER" "walls_below tiles1 s"
      by (simp_all add: t1 walls_below_def)
    with s show ?thesis by blast
  next
    case turn
    then have w: "walls_below tiles1 (s + 1)"
      by (simp add: t1 walls_below_def)
    have "g_solution st1 = prefix_grid (- 1) s" "monsters (g_puzzle st1) = 0"
      "treasures (g_puzzle st1) = 0"
      using c(1) s w c(2) unfolding tiles1_def by (rule agree_all_walls)+
    then have ok unfolding ok_def using s by (simp add: all_walls_accepted)
    with w show ?thesis by simp
  next
    case below
    then have "tiles1 j = TREASURE \<or> tiles1 j = MONSTER" "walls_below tiles1 j"
      by (simp_all add: t1 walls_below_def)
    with below(1,2) show ?thesis by (intro disjI2 exI [of _ j]) simp
  qed
  then show ?thesis
  proof
    assume w: "walls_below tiles1 (s + 1) \<and> ok"
    show ?thesis
    proof (cases "s < 63")
      case True
      have "tiles1 (s + 1) = EMPTY" using c(2) True by (simp add: clear_above_def)
      then have "walls_ahead (gen_body 1 st)"
        using w True s by (simp add: walls_ahead_def f sl pi)
      then show ?thesis ..
    next
      case False
      with w show ?thesis by (simp add: pi)
    qed
  next
    assume "\<exists>j. 0 \<le> j \<and> j \<le> s \<and> (tiles1 j = TREASURE \<or> tiles1 j = MONSTER) \<and>
      walls_below tiles1 j"
    then obtain j where j: "0 \<le> j" "j \<le> s" "tiles1 j = TREASURE \<or> tiles1 j = MONSTER"
      "walls_below tiles1 j" by blast
    then have "tiles1 j \<noteq> EMPTY" by auto
    with j(1,2) have jb: "j \<le> b" unfolding b_def by (rule gen_backtrack_ge)
    show ?thesis
    proof (cases "ok \<and> \<not> s < 63")
      case True
      then show ?thesis by (simp add: pi)
    next
      case False
      then have "puzzle_i (gen_body 1 st) = 0" by (simp add: pi)
      moreover have "0 \<le> g_slot (gen_body 1 st)" "j \<le> g_slot (gen_body 1 st)"
        using False j(1,2) jb by (auto simp: sl)
      ultimately have "walls_ahead (gen_body 1 st)"
        unfolding walls_ahead_def f using j pi(2) by blast
      then show ?thesis ..
    qed
  qed
qed

lemma gen_loop_first:
  "gen_inv st \<Longrightarrow> puzzle_i st = 1 \<or> walls_ahead st \<Longrightarrow> puzzle_i (gen_loop 1 st) = 1"
proof (induction "1 :: u64" st rule: gen_loop.induct)
  case (1 st)
  show ?case
  proof (cases "gen_running st")
    case True
    then have run: "0 \<le> g_slot st \<and> g_slot st < 64 \<and> \<not> returned st"
      by (simp add: gen_running_def)
    have "gen_inv (gen_body 1 st)" using 1(2) run by (intro gen_body_inv) simp_all
    moreover have "puzzle_i (gen_body 1 st) = 1 \<or> walls_ahead (gen_body 1 st)"
    proof (cases "puzzle_i st = 1")
      case True
      then show ?thesis by (simp add: gen_body_stores)
    next
      case False
      with 1(3) have "walls_ahead st" by simp
      with 1(2) show ?thesis by (rule gen_body_first)
    qed
    ultimately have "puzzle_i (gen_loop 1 (gen_body 1 st)) = 1" using run 1(1) by blast
    with True show ?thesis by (subst gen_loop_running) simp
  next
    case False
    then have "\<not> walls_ahead st"
      using 1(2) by (auto simp: gen_running_def walls_ahead_def gen_inv_def)
    with 1(3) have "puzzle_i st = 1" by simp
    with False show ?thesis by (subst gen_loop_running) simp
  qed
qed

lemma generate_first: "fst (generate buf 1) = 1"
proof -
  have "walls_ahead (gen_init buf)"
    by (simp add: walls_ahead_def gen_init_def walls_below_def)
  then have "puzzle_i (gen_loop 1 (gen_init buf)) = 1"
    using gen_inv_init [of buf] by (intro gen_loop_first) simp_all
  then show ?thesis by (simp add: generate_def Let_def)
qed

section \<open>Claim about the puzzles that the generator emits\<close>

lemma solve_count_any:
  assumes "length b1 = unat c1" "length b2 = unat c2"
  shows "fst (solve pz b1 c1) = fst (solve pz b2 c2)"
  using solve_lockstep [OF assms, of pz] by (simp add: lockstep_def solve_def Let_def)

text \<open>
  C2. Every record that \<open>generate\<close> has stored in the caller's buffer (the entries
  below the returned count) was built by some iteration \<open>n\<close> of the search from a
  complete tiling that passed the checks at slot 63: its puzzle is the one derived from
  the wall grid \<open>G\<close> of that tiling, with the row and column counts of \<open>G\<close>, and its
  solution count is what \<open>solve\<close> returns for that puzzle with the generator's buffer
  of 128 entries. That count is at least 1, and \<open>solve\<close>, run on the puzzle with any
  buffer that holds all the solutions it counts, stores \<open>G\<close> among them. Whatever
  the capacity, \<open>G\<close> is one of the grids that \<open>solve\<close> counts: the one numbered
  \<open>j\<close>, which is in the buffer at index \<open>j\<close> if \<open>j\<close> is below the capacity.
\<close>

theorem generate_emits_solvable:
  assumes "length buf = unat mx"
  shows "\<forall>k < unat (fst (generate buf mx)). \<exists>n.
           (let gp = snd (generate buf mx) ! k;
                st1 = cycle_tile (gen_steps mx n (gen_init buf));
                G = g_solution st1
            in emitted_at mx buf n gp \<and>
               gp_puzzle gp = derive_puzzle (g_puzzle st1) G \<and>
               num_solutions gp = fst (solve (gp_puzzle gp) (replicate 128 0) 128) \<and>
               1 \<le> unat (num_solutions gp) \<and>
               (\<forall>b c. length b = unat c \<and> fst (solve (gp_puzzle gp) b c) \<le> c \<longrightarrow>
                      G \<in> set (stored_solutions (gp_puzzle gp) b c)) \<and>
               (\<forall>b c. length b = unat c \<longrightarrow>
                      (\<exists>j < unat (fst (solve (gp_puzzle gp) b c)).
                         j < unat c \<longrightarrow> snd (solve (gp_puzzle gp) b c) ! j = G)))"
proof (intro allI impI)
  fix k assume k: "k < unat (fst (generate buf mx))"
  obtain m where m: "gen_loop mx (gen_init buf) = gen_steps mx m (gen_init buf)"
    using gen_loop_steps by blast
  have "stored_emitted mx buf (gen_loop mx (gen_init buf))"
    unfolding m using assms by (rule gen_steps_stored)
  with k obtain n where e: "emitted_at mx buf n (snd (generate buf mx) ! k)"
    by (auto simp: stored_emitted_def generate_def Let_def)
  have "gp_puzzle (snd (generate buf mx) ! k) =
      derive_puzzle (g_puzzle (cycle_tile (gen_steps mx n (gen_init buf))))
        (g_solution (cycle_tile (gen_steps mx n (gen_init buf))))"
    "num_solutions (snd (generate buf mx) ! k) =
      fst (solve (gp_puzzle (snd (generate buf mx) ! k)) (replicate 128 0) 128)"
    using e by (simp_all add: emitted_at_def Let_def)
  then show "\<exists>n.
           (let gp = snd (generate buf mx) ! k;
                st1 = cycle_tile (gen_steps mx n (gen_init buf));
                G = g_solution st1
            in emitted_at mx buf n gp \<and>
               gp_puzzle gp = derive_puzzle (g_puzzle st1) G \<and>
               num_solutions gp = fst (solve (gp_puzzle gp) (replicate 128 0) 128) \<and>
               1 \<le> unat (num_solutions gp) \<and>
               (\<forall>b c. length b = unat c \<and> fst (solve (gp_puzzle gp) b c) \<le> c \<longrightarrow>
                      G \<in> set (stored_solutions (gp_puzzle gp) b c)) \<and>
               (\<forall>b c. length b = unat c \<longrightarrow>
                      (\<exists>j < unat (fst (solve (gp_puzzle gp) b c)).
                         j < unat c \<longrightarrow> snd (solve (gp_puzzle gp) b c) ! j = G)))"
    using e emitted_solvable [OF e] unfolding Let_def by (intro exI [of _ n]) blast
qed

text \<open>
  With a buffer of one entry \<open>generate\<close> returns 1: the entry, whose count was 0, now
  holds a puzzle with a count of at least 1, and \<open>solve\<close> with a buffer of that many
  entries stores the wall grid from which the puzzle was built.
\<close>

theorem generate_emits_solvable_witness:
  "fst (generate [\<lparr>gp_puzzle = zero_puzzle, num_solutions = 0\<rparr>] 1) = 1 \<and>
   (let gp = snd (generate [\<lparr>gp_puzzle = zero_puzzle, num_solutions = 0\<rparr>] 1) ! 0
    in 1 \<le> unat (num_solutions gp) \<and>
       (\<exists>n. emitted_at 1 [\<lparr>gp_puzzle = zero_puzzle, num_solutions = 0\<rparr>] n gp \<and>
            g_solution (cycle_tile (gen_steps 1 n
                (gen_init [\<lparr>gp_puzzle = zero_puzzle, num_solutions = 0\<rparr>])))
              \<in> set (stored_solutions (gp_puzzle gp)
                      (replicate (unat (num_solutions gp)) 0) (num_solutions gp))))"
proof -
  define buf where "buf = [\<lparr>gp_puzzle = zero_puzzle, num_solutions = 0 :: u64\<rparr>]"
  define gp where "gp = snd (generate buf 1) ! 0"
  have one: "fst (generate buf 1) = 1" by (rule generate_first)
  have "length buf = unat (1 :: u64)" by (simp add: buf_def)
  then have every: "\<forall>k < unat (fst (generate buf 1)). \<exists>n.
           (let gp = snd (generate buf 1) ! k;
                st1 = cycle_tile (gen_steps 1 n (gen_init buf));
                G = g_solution st1
            in emitted_at 1 buf n gp \<and>
               gp_puzzle gp = derive_puzzle (g_puzzle st1) G \<and>
               num_solutions gp = fst (solve (gp_puzzle gp) (replicate 128 0) 128) \<and>
               1 \<le> unat (num_solutions gp) \<and>
               (\<forall>b c. length b = unat c \<and> fst (solve (gp_puzzle gp) b c) \<le> c \<longrightarrow>
                      G \<in> set (stored_solutions (gp_puzzle gp) b c)) \<and>
               (\<forall>b c. length b = unat c \<longrightarrow>
                      (\<exists>j < unat (fst (solve (gp_puzzle gp) b c)).
                         j < unat c \<longrightarrow> snd (solve (gp_puzzle gp) b c) ! j = G)))"
    by (rule generate_emits_solvable)
  have pos: "0 < unat (fst (generate buf 1))" by (simp add: one)
  have "\<exists>n. emitted_at 1 buf n gp \<and>
       gp_puzzle gp = derive_puzzle (g_puzzle (cycle_tile (gen_steps 1 n (gen_init buf))))
         (g_solution (cycle_tile (gen_steps 1 n (gen_init buf)))) \<and>
       num_solutions gp = fst (solve (gp_puzzle gp) (replicate 128 0) 128) \<and>
       1 \<le> unat (num_solutions gp) \<and>
       (\<forall>b c. length b = unat c \<and> fst (solve (gp_puzzle gp) b c) \<le> c \<longrightarrow>
          g_solution (cycle_tile (gen_steps 1 n (gen_init buf)))
            \<in> set (stored_solutions (gp_puzzle gp) b c)) \<and>
       (\<forall>b c. length b = unat c \<longrightarrow>
          (\<exists>j < unat (fst (solve (gp_puzzle gp) b c)).
             j < unat c \<longrightarrow> snd (solve (gp_puzzle gp) b c) ! j =
               g_solution (cycle_tile (gen_steps 1 n (gen_init buf)))))"
    using every [THEN spec, THEN mp, OF pos] unfolding Let_def gp_def [symmetric] .
  then obtain n where e: "emitted_at 1 buf n gp"
    and c: "num_solutions gp = fst (solve (gp_puzzle gp) (replicate 128 0) 128)"
    and p: "1 \<le> unat (num_solutions gp)"
    and f: "\<And>b c. length b = unat c \<Longrightarrow> fst (solve (gp_puzzle gp) b c) \<le> c \<Longrightarrow>
        g_solution (cycle_tile (gen_steps 1 n (gen_init buf)))
          \<in> set (stored_solutions (gp_puzzle gp) b c)"
    by blast
  have "fst (solve (gp_puzzle gp) (replicate (unat (num_solutions gp)) 0) (num_solutions gp)) =
      fst (solve (gp_puzzle gp) (replicate 128 0) 128)"
    by (rule solve_count_any) simp_all
  then have "g_solution (cycle_tile (gen_steps 1 n (gen_init buf)))
      \<in> set (stored_solutions (gp_puzzle gp)
              (replicate (unat (num_solutions gp)) 0) (num_solutions gp))"
    using c by (intro f) simp_all
  with e have "\<exists>n. emitted_at 1 buf n gp \<and>
      g_solution (cycle_tile (gen_steps 1 n (gen_init buf)))
        \<in> set (stored_solutions (gp_puzzle gp)
                (replicate (unat (num_solutions gp)) 0) (num_solutions gp))"
    by (intro exI [of _ n]) simp
  with p one show ?thesis
    unfolding Let_def buf_def [symmetric] gp_def [symmetric] by simp
qed

end
